theory Spec2Isabelle
  imports Complex_Main "HOL-Library.Word"
begin

section \<open>The gallery engine of src/GalleryEngine.js\<close>

text \<open>
  The class \<open>GalleryEngine\<close> keeps a packed binary blob, an index parsed from it, a cache
  of thumbnail Blob URLs and at most one playing animation. Its methods mutate the
  object and call into the browser (\<open>URL.createObjectURL\<close>, \<open>URL.revokeObjectURL\<close>,
  the \<open>IntersectionObserver\<close>, the \<open>src\<close> of image elements, the console). The model
  passes one record around that holds the object's fields and the part of the browser
  the methods touch. A method that can throw returns the exception (if any) next to
  the state it leaves behind, because the assignments made before a throw persist.
\<close>

subsection \<open>Data\<close>

type_synonym byte = "8 word"
type_synonym url = nat
type_synonym elem = nat

text \<open>An index entry \<open>{width, height, thumb: {offset, length}, anim: {offset, length}}\<close>.
  The entry comes from \<open>JSON.parse\<close>, so \<open>thumb\<close> and \<open>anim\<close> may be absent
  (\<open>undefined\<close>); the numbers are taken to be integers.\<close>

record range =
  offset :: int
  length_r :: int

record meta =
  width :: int
  height :: int
  thumb :: "range option"
  anim :: "range option"

type_synonym index = "(string \<times> meta) list"

text \<open>The exceptions the methods can raise. \<open>NetworkError\<close> is a rejected \<open>fetch\<close>,
  \<open>HttpError\<close> the \<open>Error\<close> thrown for a response that is not ok; the others are the
  JavaScript exceptions of the same name.\<close>

datatype error = NetworkError | HttpError nat | RangeError | SyntaxError | TypeError

text \<open>What \<open>fetch\<close> followed by \<open>arrayBuffer\<close> delivers: a rejection, or a response with
  its \<open>ok\<close> flag, status and body.\<close>

datatype fetch_result = Rejected | Response bool nat "byte list"

text \<open>\<open>activeState\<close> is only ever assigned \<open>{id: null, imgEl: null, animUrl: null}\<close> or
  \<open>{id, imgEl, animUrl}\<close> as a whole: the two shapes are the two constructors.\<close>

datatype active_state = Idle | Playing string elem url

text \<open>The calls made to the browser's Blob URL store, most recent first. The kind
  records the call site: \<open>initThumbnails\<close> or \<open>playAnimation\<close>.\<close>

datatype handle_kind = ThumbHandle | AnimHandle

datatype url_call = Created handle_kind url | Revoked url

text \<open>\<open>console.warn\<close> and \<open>console.error\<close> messages, most recent first. The
  \<open>console.log\<close> progress lines are not modelled.\<close>

datatype console_msg = WarnItemMissing string | WarnAnimMissing string | ErrorLoadFailed error

record engine =
  buffer :: "byte list option"
  indexMap :: "index option"
  payloadStart :: int
  thumbUrls :: "(string \<times> url) list"
  activeState :: active_state
  observed :: "elem set"
  listening :: bool
  srcOf :: "elem \<Rightarrow> url option"
  nextUrl :: url
  blobs :: "url \<rightharpoonup> byte list"
  trace :: "url_call list"
  console :: "console_msg list"

text \<open>The target of a click: the element, its tag name and its \<open>data-id\<close> attribute.\<close>

record tap_target =
  ref :: elem
  tagName :: string
  dataset_id :: "string option"

text \<open>An \<open>IntersectionObserverEntry\<close>.\<close>

record entry =
  target :: elem
  isIntersecting :: bool
  intersectionRatio :: real

text \<open>What \<open>getItemData\<close> returns; a field that is \<open>undefined\<close> is \<open>None\<close>.\<close>

record item_data =
  item_url :: "url option"
  item_width :: "int option"
  item_height :: "int option"

text \<open>What \<open>JSON.parse\<close> makes of the index text: a \<open>SyntaxError\<close>, \<open>null\<close>, or an
  object of entries. Other JSON values (numbers, strings, booleans, arrays) are not
  modelled.\<close>

datatype parsed = NotJson | JsonNull | JsonObject index

datatype event = Tap tap_target | Stop | Visibility "entry list"

subsection \<open>Browser primitives\<close>

text \<open>\<open>DataView.getUint32(0, true)\<close>: little endian, a \<open>RangeError\<close> on a view shorter
  than four bytes.\<close>

definition getUint32 :: "byte list \<Rightarrow> error + nat" where
  "getUint32 buf =
     (if length buf < 4 then Inl RangeError
      else Inr (unat (buf ! 0) + 256 * unat (buf ! 1) + 65536 * unat (buf ! 2)
                + 16777216 * unat (buf ! 3)))"

text \<open>\<open>new Uint8Array(buffer, byteOffset, length)\<close>: a \<open>RangeError\<close> when the view
  does not fit the buffer.\<close>

definition uint8View :: "byte list \<Rightarrow> nat \<Rightarrow> nat \<Rightarrow> error + byte list" where
  "uint8View buf byteOffset n =
     (if length buf < byteOffset + n then Inl RangeError
      else Inr (take n (drop byteOffset buf)))"

text \<open>\<open>ArrayBuffer.prototype.slice(begin, end)\<close>: a negative index counts from the
  end, both indices are clamped to the buffer, and an empty range gives no bytes.\<close>

definition clampIndex :: "int \<Rightarrow> int \<Rightarrow> int" where
  "clampIndex len k = (if k < 0 then max (len + k) 0 else min k len)"

definition slice :: "byte list \<Rightarrow> int \<Rightarrow> int \<Rightarrow> byte list" where
  "slice buf from_i to_i =
     (let len = int (length buf);
          first = clampIndex len from_i;
          final = clampIndex len to_i;
          newLen = max (final - first) 0
      in take (nat newLen) (drop (nat first) buf))"

text \<open>\<open>URL.createObjectURL(new Blob([bytes]))\<close> returns a URL never handed out
  before and keeps the blob alive under it.\<close>

definition createObjectURL :: "handle_kind \<Rightarrow> byte list \<Rightarrow> engine \<Rightarrow> url \<times> engine" where
  "createObjectURL k bytes s =
     (nextUrl s,
      s\<lparr>nextUrl := Suc (nextUrl s),
        blobs := (blobs s)(nextUrl s \<mapsto> bytes),
        trace := Created k (nextUrl s) # trace s\<rparr>)"

definition revokeObjectURL :: "url \<Rightarrow> engine \<Rightarrow> engine" where
  "revokeObjectURL u s = s\<lparr>blobs := (blobs s)(u := None), trace := Revoked u # trace s\<rparr>"

text \<open>\<open>Map.prototype.set\<close>: an existing key keeps its place and takes the new value,
  a new key goes last.\<close>

fun map_set :: "'k \<Rightarrow> 'v \<Rightarrow> ('k \<times> 'v) list \<Rightarrow> ('k \<times> 'v) list" where
  "map_set k v [] = [(k, v)]"
| "map_set k v (p # ps) = (if fst p = k then (k, v) # ps else p # map_set k v ps)"

text \<open>Reading \<open>obj[name]\<close> on the plain object that \<open>JSON.parse\<close> built: an own key
  gives its entry; a name the object inherits from \<open>Object.prototype\<close> gives a function
  (or, for \<open>__proto__\<close>, the prototype object), which is truthy and has no \<open>anim\<close>,
  \<open>width\<close> or \<open>height\<close>; any other name gives \<open>undefined\<close>.\<close>

definition objectPrototypeNames :: "string list" where
  "objectPrototypeNames =
     [''constructor'', ''toString'', ''toLocaleString'', ''valueOf'', ''hasOwnProperty'',
      ''isPrototypeOf'', ''propertyIsEnumerable'', ''__proto__'', ''__defineGetter__'',
      ''__defineSetter__'', ''__lookupGetter__'', ''__lookupSetter__'']"

datatype property = Undefined | Inherited | Own meta

definition getProp :: "index \<Rightarrow> string \<Rightarrow> property" where
  "getProp idx i =
     (case map_of idx i of
        Some m \<Rightarrow> Own m
      | None \<Rightarrow> if i \<in> set objectPrototypeNames then Inherited else Undefined)"

subsection \<open>The engine\<close>

definition new_engine :: engine where
  "new_engine =
     \<lparr>buffer = None, indexMap = None, payloadStart = 0, thumbUrls = [],
      activeState = Idle, observed = {}, listening = True, srcOf = (\<lambda>_. None),
      nextUrl = 0, blobs = Map.empty, trace = [], console = []\<rparr>"

text \<open>One round of the loop of \<open>initThumbnails\<close>. Reading \<open>this.buffer.slice\<close> on a
  null buffer and \<open>meta.thumb.offset\<close> on a missing \<open>thumb\<close> throw a \<open>TypeError\<close>.\<close>

definition thumbEntry :: "string \<Rightarrow> meta \<Rightarrow> engine \<Rightarrow> error option \<times> engine" where
  "thumbEntry i m s =
     (case buffer s of
        None \<Rightarrow> (Some TypeError, s)
      | Some buf \<Rightarrow>
          (case thumb m of
             None \<Rightarrow> (Some TypeError, s)
           | Some r \<Rightarrow>
               (let (u, s1) = createObjectURL ThumbHandle
                      (slice buf (payloadStart s + offset r)
                                 (payloadStart s + offset r + length_r r)) s
                in (None, s1\<lparr>thumbUrls := map_set i u (thumbUrls s1)\<rparr>))))"

fun thumbLoop :: "index \<Rightarrow> engine \<Rightarrow> error option \<times> engine" where
  "thumbLoop [] s = (None, s)"
| "thumbLoop ((i, m) # rest) s =
     (case thumbEntry i m s of
        (Some e, s1) \<Rightarrow> (Some e, s1)
      | (None, s1) \<Rightarrow> thumbLoop rest s1)"

definition initThumbnails :: "engine \<Rightarrow> error option \<times> engine" where
  "initThumbnails s =
     (case indexMap s of
        None \<Rightarrow> (Some TypeError, s)
      | Some idx \<Rightarrow> thumbLoop idx s)"

text \<open>\<open>load\<close>, from the point where the response has arrived. \<open>parse\<close> stands for
  \<open>TextDecoder.decode\<close> followed by \<open>JSON.parse\<close>. When the text is \<open>null\<close>, the index and
  the payload base are assigned and \<open>Object.keys(this.indexMap)\<close> in the progress line
  throws a \<open>TypeError\<close>.\<close>

definition loadBody ::
  "(byte list \<Rightarrow> parsed) \<Rightarrow> fetch_result \<Rightarrow> engine \<Rightarrow> error option \<times> engine" where
  "loadBody parse fr s =
     (case fr of
        Rejected \<Rightarrow> (Some NetworkError, s)
      | Response ok status body \<Rightarrow>
          if \<not> ok then (Some (HttpError status), s)
          else
            (let s1 = s\<lparr>buffer := Some body\<rparr> in
             case getUint32 body of
               Inl e \<Rightarrow> (Some e, s1)
             | Inr headerLen \<Rightarrow>
                 (case uint8View body 4 headerLen of
                    Inl e \<Rightarrow> (Some e, s1)
                  | Inr txt \<Rightarrow>
                      (case parse txt of
                         NotJson \<Rightarrow> (Some SyntaxError, s1)
                       | JsonNull \<Rightarrow>
                           (Some TypeError,
                            s1\<lparr>indexMap := None, payloadStart := 4 + int headerLen\<rparr>)
                       | JsonObject idx \<Rightarrow>
                           initThumbnails
                             (s1\<lparr>indexMap := Some idx,
                                 payloadStart := 4 + int headerLen\<rparr>)))))"

text \<open>The \<open>catch\<close> block of \<open>load\<close> reports the exception and throws it again.\<close>

definition load ::
  "(byte list \<Rightarrow> parsed) \<Rightarrow> fetch_result \<Rightarrow> engine \<Rightarrow> error option \<times> engine" where
  "load parse fr s =
     (case loadBody parse fr s of
        (None, s1) \<Rightarrow> (None, s1)
      | (Some e, s1) \<Rightarrow> (Some e, s1\<lparr>console := ErrorLoadFailed e # console s1\<rparr>))"

definition getItemData :: "engine \<Rightarrow> string \<Rightarrow> item_data option \<times> engine" where
  "getItemData s i =
     (case indexMap s of
        None \<Rightarrow> (None, s\<lparr>console := WarnItemMissing i # console s\<rparr>)
      | Some idx \<Rightarrow>
          (case getProp idx i of
             Undefined \<Rightarrow> (None, s\<lparr>console := WarnItemMissing i # console s\<rparr>)
           | Inherited \<Rightarrow>
               (Some \<lparr>item_url = map_of (thumbUrls s) i,
                      item_width = None, item_height = None\<rparr>, s)
           | Own m \<Rightarrow>
               (Some \<lparr>item_url = map_of (thumbUrls s) i,
                      item_width = Some (width m), item_height = Some (height m)\<rparr>, s)))"

definition getAllIds :: "engine \<Rightarrow> string list" where
  "getAllIds s = (case indexMap s of None \<Rightarrow> [] | Some idx \<Rightarrow> map fst idx)"

text \<open>\<open>stopActiveAnimation\<close>: nothing when \<open>activeState.id\<close> is falsy (null or the
  empty string).\<close>

definition stopActiveAnimation :: "engine \<Rightarrow> engine" where
  "stopActiveAnimation s =
     (case activeState s of
        Idle \<Rightarrow> s
      | Playing i el u \<Rightarrow>
          if i = [] then s
          else
            (let s1 = s\<lparr>observed := observed s - {el}\<rparr>;
                 s2 = s1\<lparr>srcOf := (srcOf s1)(el := map_of (thumbUrls s1) i)\<rparr>;
                 s3 = revokeObjectURL u s2
             in s3\<lparr>activeState := Idle\<rparr>))"

text \<open>\<open>playAnimation\<close>. An inherited name passes the \<open>!meta\<close> guard and
  \<open>meta.anim.offset\<close> throws a \<open>TypeError\<close>, as a missing \<open>anim\<close> or a null buffer
  does.\<close>

definition playAnimation :: "string \<Rightarrow> elem \<Rightarrow> engine \<Rightarrow> error option \<times> engine" where
  "playAnimation i el s =
     (case indexMap s of
        None \<Rightarrow> (Some TypeError, s)
      | Some idx \<Rightarrow>
          (case getProp idx i of
             Undefined \<Rightarrow> (None, s\<lparr>console := WarnAnimMissing i # console s\<rparr>)
           | Inherited \<Rightarrow> (Some TypeError, s)
           | Own m \<Rightarrow>
               (case buffer s of
                  None \<Rightarrow> (Some TypeError, s)
                | Some buf \<Rightarrow>
                    (case anim m of
                       None \<Rightarrow> (Some TypeError, s)
                     | Some r \<Rightarrow>
                         (let (u, s1) = createObjectURL AnimHandle
                                (slice buf (payloadStart s + offset r)
                                           (payloadStart s + offset r + length_r r)) s;
                              s2 = s1\<lparr>activeState := Playing i el u\<rparr>;
                              s3 = s2\<lparr>srcOf := (srcOf s2)(el \<mapsto> u)\<rparr>
                          in (None, s3\<lparr>observed := insert el (observed s3)\<rparr>))))))"

definition activeId :: "engine \<Rightarrow> string option" where
  "activeId s = (case activeState s of Idle \<Rightarrow> None | Playing i el u \<Rightarrow> Some i)"

definition activeEl :: "engine \<Rightarrow> elem option" where
  "activeEl s = (case activeState s of Idle \<Rightarrow> None | Playing i el u \<Rightarrow> Some el)"

definition activeUrl :: "engine \<Rightarrow> url option" where
  "activeUrl s = (case activeState s of Idle \<Rightarrow> None | Playing i el u \<Rightarrow> Some u)"

text \<open>JavaScript truthiness of a string that may be null or undefined.\<close>

definition truthy :: "string option \<Rightarrow> bool" where
  "truthy x = (case x of None \<Rightarrow> False | Some str \<Rightarrow> str \<noteq> [])"

definition handleTap :: "engine \<Rightarrow> tap_target \<Rightarrow> error option \<times> engine" where
  "handleTap s t =
     (if tagName t \<noteq> ''IMG'' \<or> \<not> truthy (dataset_id t) then (None, s)
      else
        (case dataset_id t of
           None \<Rightarrow> (None, s)
         | Some i \<Rightarrow>
             if activeId s = Some i then (None, stopActiveAnimation s)
             else
               (let s1 = (if truthy (activeId s) then stopActiveAnimation s else s)
                in playAnimation i (ref t) s1)))"

text \<open>The callback given to the \<open>IntersectionObserver\<close> (created with threshold 0).\<close>

definition observerEntry :: "engine \<Rightarrow> entry \<Rightarrow> engine" where
  "observerEntry s e =
     (if \<not> isIntersecting e \<and> activeEl s = Some (target e) then stopActiveAnimation s
      else s)"

definition observerCallback :: "engine \<Rightarrow> entry list \<Rightarrow> engine" where
  "observerCallback s entries = foldl observerEntry s entries"

text \<open>\<open>dispose\<close>. Emptying the container's \<open>innerHTML\<close> touches nothing the record
  holds and is left out.\<close>

definition dispose :: "engine \<Rightarrow> engine" where
  "dispose s =
     (let s1 = stopActiveAnimation s;
          s2 = s1\<lparr>listening := False\<rparr>;
          s3 = s2\<lparr>observed := {}\<rparr>;
          s4 = foldl (\<lambda>st u. revokeObjectURL u st) s3 (map snd (thumbUrls s3));
          s5 = s4\<lparr>thumbUrls := []\<rparr>;
          s6 = s5\<lparr>buffer := None\<rparr>
      in s6\<lparr>indexMap := None\<rparr>)"

subsection \<open>Event sequences\<close>

text \<open>Handlers run to completion one after the other; an exception thrown by the click
  handler is reported by the browser and the next event is dispatched.\<close>

definition step :: "engine \<Rightarrow> event \<Rightarrow> engine" where
  "step s ev =
     (case ev of
        Tap t \<Rightarrow> snd (handleTap s t)
      | Stop \<Rightarrow> stopActiveAnimation s
      | Visibility entries \<Rightarrow> observerCallback s entries)"

definition run :: "engine \<Rightarrow> event list \<Rightarrow> engine" where
  "run s evs = foldl step s evs"

text \<open>Sequences in which \<open>load\<close> is called as well, any number of times; the caller
  catches what \<open>load\<close> throws and goes on.\<close>

datatype operation = LoadOp fetch_result | EventOp event

definition perform :: "(byte list \<Rightarrow> parsed) \<Rightarrow> engine \<Rightarrow> operation \<Rightarrow> engine" where
  "perform parse s op =
     (case op of
        LoadOp fr \<Rightarrow> snd (load parse fr s)
      | EventOp ev \<Rightarrow> step s ev)"

definition runOps :: "(byte list \<Rightarrow> parsed) \<Rightarrow> engine \<Rightarrow> operation list \<Rightarrow> engine" where
  "runOps parse s ops = foldl (perform parse) s ops"

subsection \<open>What the trace says\<close>

text \<open>The URLs alive after a sequence of calls (most recent first), and those among
  them that \<open>playAnimation\<close> created.\<close>

fun live :: "url_call list \<Rightarrow> url set" where
  "live [] = {}"
| "live (Created k u # tr) = insert u (live tr)"
| "live (Revoked u # tr) = live tr - {u}"

fun live_anim :: "url_call list \<Rightarrow> url set" where
  "live_anim [] = {}"
| "live_anim (Created AnimHandle u # tr) = insert u (live_anim tr)"
| "live_anim (Created ThumbHandle u # tr) = live_anim tr"
| "live_anim (Revoked u # tr) = live_anim tr - {u}"

text \<open>A property of the trace at every moment: of the trace and of each of its
  earlier stages.\<close>

fun always :: "(url_call list \<Rightarrow> bool) \<Rightarrow> url_call list \<Rightarrow> bool" where
  "always P [] = P []"
| "always P (c # tr) = (P (c # tr) \<and> always P tr)"

definition created :: "url_call list \<Rightarrow> url \<Rightarrow> bool" where
  "created tr u = (Created ThumbHandle u \<in> set tr \<or> Created AnimHandle u \<in> set tr)"

text \<open>The moment right before an animation handle is created has none alive.\<close>

definition released_before_play :: "url_call list \<Rightarrow> bool" where
  "released_before_play tr =
     (case tr of Created AnimHandle u # before \<Rightarrow> live_anim before = {} | _ \<Rightarrow> True)"

text \<open>The byte range \<open>[a, b)\<close> of a buffer, in the words of the specification: the bytes
  at the positions from \<open>a\<close> up to but excluding \<open>b\<close>.\<close>

definition byteRange :: "byte list \<Rightarrow> int \<Rightarrow> int \<Rightarrow> byte list" where
  "byteRange buf a b = map (\<lambda>k. buf ! k) (filter (\<lambda>k. k < length buf) [nat a ..< nat b])"

subsection \<open>Invariants\<close>

text \<open>What every state reached from a new engine satisfies: URLs are handed out in
  order, the store holds exactly the URLs the trace leaves alive, the cached thumbnails
  and the playing animation are alive and distinct, a URL is revoked at most once and
  only after its creation, the playing id is not the empty string, and the only
  animation handle alive is the one of \<open>activeState\<close>.\<close>

definition fresh_from :: "url_call list \<Rightarrow> url \<Rightarrow> bool" where
  "fresh_from tr n = (\<forall>u. created tr u \<longrightarrow> u < n)"

definition revoked_once :: "url_call list \<Rightarrow> bool" where
  "revoked_once tr =
     (\<forall>u. count_list tr (Revoked u) = (if created tr u \<and> u \<notin> live tr then 1 else 0))"

definition one_anim :: "url_call list \<Rightarrow> bool" where
  "one_anim t = (card (live_anim t) \<le> 1 \<and> released_before_play t)"

definition wf :: "engine \<Rightarrow> bool" where
  "wf s =
     (fresh_from (trace s) (nextUrl s)
      \<and> dom (blobs s) = live (trace s)
      \<and> snd ` set (thumbUrls s) \<subseteq> live (trace s)
      \<and> set_option (activeUrl s) \<subseteq> live (trace s)
      \<and> distinct (map snd (thumbUrls s))
      \<and> set_option (activeUrl s) \<inter> snd ` set (thumbUrls s) = {}
      \<and> revoked_once (trace s)
      \<and> activeId s \<noteq> Some []
      \<and> live_anim (trace s) = set_option (activeUrl s)
      \<and> always one_anim (trace s))"

text \<open>No URL is alive but the cached thumbnails and the playing animation.\<close>

definition tight :: "engine \<Rightarrow> bool" where
  "tight s = (live (trace s) \<subseteq> snd ` set (thumbUrls s) \<union> set_option (activeUrl s))"

text \<open>The keys of a JavaScript object are distinct; the index that \<open>parse\<close> hands
  back is taken to list each key once.\<close>

definition distinct_keys :: "engine \<Rightarrow> bool" where
  "distinct_keys s = (case indexMap s of None \<Rightarrow> True | Some idx \<Rightarrow> distinct (map fst idx))"

text \<open>The playing id is a key of the index.\<close>

definition known_active :: "engine \<Rightarrow> bool" where
  "known_active s =
     (case activeState s of
        Idle \<Rightarrow> True
      | Playing i el u \<Rightarrow>
          (case indexMap s of None \<Rightarrow> False | Some idx \<Rightarrow> map_of idx i \<noteq> None))"

text \<open>The fields no event changes.\<close>

definition same_data :: "engine \<Rightarrow> engine \<Rightarrow> bool" where
  "same_data s s' =
     (buffer s' = buffer s \<and> indexMap s' = indexMap s \<and> payloadStart s' = payloadStart s
      \<and> thumbUrls s' = thumbUrls s)"

subsection \<open>A concrete blob\<close>

text \<open>The blob of the specification's scenario with a second entry: a header, the index
  text and 17 payload bytes.\<close>

definition ex_json_text :: string where
  \<open>ex_json_text = ''{"a":{"width":10,"height":10,"thumb":{"offset":0,"length":4},"anim":{"offset":4,"length":8}},"b":{"width":20,"height":20,"thumb":{"offset":12,"length":2},"anim":{"offset":14,"length":3}}}''\<close>

definition ex_json :: "byte list" where
  "ex_json = map of_char ex_json_text"

definition ex_payload :: "byte list" where
  "ex_payload = [1, 2, 3, 4, 5, 6, 7, 8, 9, 10, 11, 12, 13, 14, 15, 16, 17]"

definition ex_blob :: "byte list" where
  "ex_blob = [187, 0, 0, 0] @ ex_json @ ex_payload"

definition ex_index :: index where
  "ex_index =
     [(''a'', \<lparr>width = 10, height = 10,
              thumb = Some \<lparr>offset = 0, length_r = 4\<rparr>,
              anim = Some \<lparr>offset = 4, length_r = 8\<rparr>\<rparr>),
      (''b'', \<lparr>width = 20, height = 20,
              thumb = Some \<lparr>offset = 12, length_r = 2\<rparr>,
              anim = Some \<lparr>offset = 14, length_r = 3\<rparr>\<rparr>)]"

text \<open>The same index with the \<open>thumb\<close> of the first entry missing.\<close>

definition bad_json_text :: string where
  \<open>bad_json_text = ''{"a":{"width":10,"height":10,"anim":{"offset":4,"length":8}},"b":{"width":20,"height":20,"thumb":{"offset":12,"length":2},"anim":{"offset":14,"length":3}}}''\<close>

definition bad_json :: "byte list" where
  "bad_json = map of_char bad_json_text"

definition bad_blob :: "byte list" where
  "bad_blob = [155, 0, 0, 0] @ bad_json @ ex_payload"

definition bad_index :: index where
  "bad_index =
     [(''a'', \<lparr>width = 10, height = 10,
              thumb = None,
              anim = Some \<lparr>offset = 4, length_r = 8\<rparr>\<rparr>),
      (''b'', \<lparr>width = 20, height = 20,
              thumb = Some \<lparr>offset = 12, length_r = 2\<rparr>,
              anim = Some \<lparr>offset = 14, length_r = 3\<rparr>\<rparr>)]"

text \<open>The engine as \<open>load\<close> leaves it when it calls \<open>initThumbnails\<close> on that blob.\<close>

definition bad_state :: engine where
  "bad_state =
     new_engine\<lparr>buffer := Some bad_blob, indexMap := Some bad_index, payloadStart := 159\<rparr>"

text \<open>A blob cut off after the first byte of its index text.\<close>

definition short_blob :: "byte list" where
  "short_blob = [187, 0, 0, 0, 123]"

text \<open>\<open>JSON.parse\<close> on the index texts above; any other text is taken to be no JSON.\<close>

definition ex_parse :: "byte list \<Rightarrow> parsed" where
  "ex_parse txt =
     (if txt = ex_json then JsonObject ex_index
      else if txt = bad_json then JsonObject bad_index
      else NotJson)"

text \<open>The index with the \<open>thumb\<close> of the second entry missing, its blob, and a parser
  that knows this text as well.\<close>

definition partial_json_text :: string where
  \<open>partial_json_text = ''{"a":{"width":10,"height":10,"thumb":{"offset":0,"length":4},"anim":{"offset":4,"length":8}},"b":{"width":20,"height":20,"anim":{"offset":14,"length":3}}}''\<close>

definition partial_json :: "byte list" where
  "partial_json = map of_char partial_json_text"

definition partial_blob :: "byte list" where
  "partial_blob = [154, 0, 0, 0] @ partial_json @ ex_payload"

definition partial_index :: index where
  "partial_index =
     [(''a'', \<lparr>width = 10, height = 10,
              thumb = Some \<lparr>offset = 0, length_r = 4\<rparr>,
              anim = Some \<lparr>offset = 4, length_r = 8\<rparr>\<rparr>),
      (''b'', \<lparr>width = 20, height = 20,
              thumb = None,
              anim = Some \<lparr>offset = 14, length_r = 3\<rparr>\<rparr>)]"

definition retry_parse :: "byte list \<Rightarrow> parsed" where
  "retry_parse txt = (if txt = partial_json then JsonObject partial_index else ex_parse txt)"

text \<open>The engine after a load of that blob has failed at the second entry.\<close>

definition partly_loaded :: engine where
  "partly_loaded =
     \<lparr>buffer = Some partial_blob, indexMap = Some partial_index, payloadStart = 158,
      thumbUrls = [(''a'', 0)],
      activeState = Idle, observed = {}, listening = True, srcOf = (\<lambda>_. None),
      nextUrl = 1, blobs = [0 \<mapsto> [1, 2, 3, 4]],
      trace = [Created ThumbHandle 0], console = [ErrorLoadFailed TypeError]\<rparr>"

text \<open>An image whose id is a name every object inherits.\<close>

definition img_constructor :: tap_target where
  "img_constructor = \<lparr>ref = 10, tagName = ''IMG'', dataset_id = Some ''constructor''\<rparr>"

definition ex_response :: fetch_result where
  "ex_response = Response True 200 ex_blob"

definition ex_loaded :: engine where
  "ex_loaded =
     \<lparr>buffer = Some ex_blob, indexMap = Some ex_index, payloadStart = 191,
      thumbUrls = [(''a'', 0), (''b'', 1)],
      activeState = Idle, observed = {}, listening = True, srcOf = (\<lambda>_. None),
      nextUrl = 2, blobs = [0 \<mapsto> [1, 2, 3, 4], 1 \<mapsto> [13, 14]],
      trace = [Created ThumbHandle 1, Created ThumbHandle 0], console = []\<rparr>"

text \<open>The loaded engine after a tap on the image of \<open>a\<close>.\<close>

definition ex_playing :: engine where
  "ex_playing =
     ex_loaded\<lparr>nextUrl := 3,
        blobs := [0 \<mapsto> [1, 2, 3, 4], 1 \<mapsto> [13, 14], 2 \<mapsto> [5, 6, 7, 8, 9, 10, 11, 12]],
        trace := [Created AnimHandle 2, Created ThumbHandle 1, Created ThumbHandle 0],
        activeState := Playing ''a'' 7 2,
        srcOf := (\<lambda>_. None)(7 \<mapsto> 2),
        observed := {7}\<rparr>"

definition img_a :: tap_target where
  "img_a = \<lparr>ref = 7, tagName = ''IMG'', dataset_id = Some ''a''\<rparr>"

definition img_b :: tap_target where
  "img_b = \<lparr>ref = 8, tagName = ''IMG'', dataset_id = Some ''b''\<rparr>"

definition img_zz :: tap_target where
  "img_zz = \<lparr>ref = 9, tagName = ''IMG'', dataset_id = Some ''zz''\<rparr>"

text \<open>The element of \<open>a\<close> half inside the viewport.\<close>

definition half_visible :: entry where
  "half_visible = \<lparr>target = 7, isIntersecting = True, intersectionRatio = 1 / 2\<rparr>"

definition out_of_view :: entry where
  "out_of_view = \<lparr>target = 7, isIntersecting = False, intersectionRatio = 0\<rparr>"

section \<open>Facts about the concrete blob\<close>

lemma len_ex_json: "length ex_json = 187"
  by (simp add: ex_json_def ex_json_text_def)

lemma len_bad_json: "length bad_json = 155"
  by (simp add: bad_json_def bad_json_text_def)

lemma bad_json_neq: "bad_json \<noteq> ex_json"
  using len_ex_json len_bad_json by auto

lemma getUint32_ex_blob: "getUint32 ex_blob = Inr 187"
  by (simp add: getUint32_def ex_blob_def)

lemma uint8View_ex_blob: "uint8View ex_blob 4 187 = Inr ex_json"
  by (simp add: uint8View_def ex_blob_def len_ex_json ex_payload_def)

lemma drop_ex_blob: "drop 191 ex_blob = ex_payload"
  by (simp add: ex_blob_def len_ex_json)

lemma len_ex_blob: "length ex_blob = 208"
  by (simp add: ex_blob_def len_ex_json ex_payload_def)

lemma slice_ex_blob:
  assumes "0 \<le> a" "0 \<le> n" "a + n \<le> 17"
  shows "slice ex_blob (191 + a) (191 + a + n) = take (nat n) (drop (nat a) ex_payload)"
proof -
  have "drop (nat (191 + a)) ex_blob = drop (nat a) (drop 191 ex_blob)"
    using assms by (simp add: nat_add_distrib add.commute)
  then show ?thesis
    using assms by (simp add: slice_def clampIndex_def Let_def len_ex_blob drop_ex_blob)
qed

lemma load_ex_blob: "load ex_parse ex_response new_engine = (None, ex_loaded)"
  using slice_ex_blob [of 0 4] slice_ex_blob [of 12 2]
  apply (simp add: load_def loadBody_def ex_response_def getUint32_ex_blob uint8View_ex_blob
      ex_parse_def new_engine_def initThumbnails_def ex_index_def thumbEntry_def
      createObjectURL_def ex_loaded_def)
  apply (simp add: ex_payload_def)
  done

lemma getUint32_short_blob: "getUint32 short_blob = Inr 187"
  by (simp add: getUint32_def short_blob_def)

section \<open>Loading\<close>

text \<open>
  Claim C6. A blob that is shorter than the length its header declares (four bytes plus
  the little-endian 32-bit number at offset 0) makes \<open>load\<close> fail: building the view on
  the index text throws a \<open>RangeError\<close>, which the \<open>catch\<close> block reports and throws
  again (this is the failure the specification files under FormatError). The buffer has
  been stored by then, but the index and the payload base are left as they were; on a
  new engine the index stays unset and the payload base stays 0.
\<close>

theorem load_short_blob_fails:
  assumes "getUint32 body = Inr L" and "length body < 4 + L"
  shows "load parse (Response True status body) s
           = (Some RangeError,
              s\<lparr>buffer := Some body, console := ErrorLoadFailed RangeError # console s\<rparr>)
         \<and> indexMap (snd (load parse (Response True status body) s)) = indexMap s
         \<and> payloadStart (snd (load parse (Response True status body) s)) = payloadStart s
         \<and> indexMap (snd (load parse (Response True status body) new_engine)) = None
         \<and> payloadStart (snd (load parse (Response True status body) new_engine)) = 0"
  using assms by (simp add: load_def loadBody_def uint8View_def new_engine_def)

theorem load_short_blob_fails_witness:
  "getUint32 short_blob = Inr 187 \<and> length short_blob < 4 + 187
   \<and> fst (load ex_parse (Response True 200 short_blob) new_engine) = Some RangeError
   \<and> indexMap (snd (load ex_parse (Response True 200 short_blob) new_engine)) = None
   \<and> payloadStart (snd (load ex_parse (Response True 200 short_blob) new_engine)) = 0"
proof -
  have l: "length short_blob < 4 + 187" by (simp add: short_blob_def)
  show ?thesis
    using load_short_blob_fails [OF getUint32_short_blob l, of ex_parse 200 new_engine]
          getUint32_short_blob l
    by (simp add: new_engine_def)
qed

lemma indexMap_dispose: "indexMap (dispose s) = None"
  by (simp add: dispose_def Let_def)

section \<open>The trace, stopping and playing\<close>

lemma created_Created [simp]: "created (Created k u # tr) v = (v = u \<or> created tr v)"
  by (cases k) (auto simp: created_def)

lemma created_Revoked [simp]: "created (Revoked u # tr) v = created tr v"
  by (auto simp: created_def)

lemma created_Nil [simp]: "\<not> created [] v"
  by (simp add: created_def)

lemma live_created: "u \<in> live tr \<Longrightarrow> created tr u"
  by (induction tr rule: live.induct) auto

lemma live_anim_live: "u \<in> live_anim tr \<Longrightarrow> u \<in> live tr"
  by (induction tr rule: live_anim.induct) auto

lemma fresh_from_Created: "fresh_from tr n \<Longrightarrow> fresh_from (Created k n # tr) (Suc n)"
  by (auto simp: fresh_from_def less_Suc_eq)

lemma fresh_from_Revoked: "fresh_from tr n \<Longrightarrow> fresh_from (Revoked u # tr) n"
  by (simp add: fresh_from_def)

lemma fresh_from_not_created: "fresh_from tr n \<Longrightarrow> \<not> created tr n"
  by (auto simp: fresh_from_def)

lemma fresh_from_not_live: "fresh_from tr n \<Longrightarrow> n \<notin> live tr"
  using live_created fresh_from_not_created by blast

lemma revoked_once_Created:
  "revoked_once tr \<Longrightarrow> \<not> created tr u \<Longrightarrow> revoked_once (Created k u # tr)"
  unfolding revoked_once_def by (auto dest: live_created)

lemma revoked_once_Revoked:
  "revoked_once tr \<Longrightarrow> u \<in> live tr \<Longrightarrow> revoked_once (Revoked u # tr)"
  unfolding revoked_once_def by (auto dest: live_created)

lemma stop_Idle: "activeState s = Idle \<Longrightarrow> stopActiveAnimation s = s"
  by (simp add: stopActiveAnimation_def)

lemma stop_Playing:
  "activeState s = Playing i el u \<Longrightarrow> i \<noteq> [] \<Longrightarrow>
   stopActiveAnimation s =
     s\<lparr>observed := observed s - {el},
       srcOf := (srcOf s)(el := map_of (thumbUrls s) i),
       blobs := (blobs s)(u := None),
       trace := Revoked u # trace s,
       activeState := Idle\<rparr>"
  by (simp add: stopActiveAnimation_def revokeObjectURL_def Let_def)

lemma wf_stop: "wf s \<Longrightarrow> wf (stopActiveAnimation s)"
proof (cases "activeState s")
  case Idle
  assume "wf s"
  then show ?thesis by (simp add: stop_Idle Idle)
next
  case (Playing i el u)
  assume w: "wf s"
  then have ne: "i \<noteq> []" by (simp add: wf_def activeId_def Playing)
  from w have ul: "u \<in> live (trace s)" and la: "live_anim (trace s) = {u}"
    and ut: "u \<notin> snd ` set (thumbUrls s)"
    by (auto simp: wf_def activeUrl_def Playing)
  show ?thesis
    using w ul la ut
    by (auto simp: stop_Playing [OF Playing ne] wf_def activeUrl_def activeId_def
        fresh_from_Revoked revoked_once_Revoked one_anim_def released_before_play_def)
qed

lemma activeState_stop: "wf s \<Longrightarrow> activeState (stopActiveAnimation s) = Idle"
  by (cases "activeState s") (auto simp: stop_Idle stop_Playing wf_def activeId_def)



lemma play_unloaded: "indexMap s = None \<Longrightarrow> playAnimation i el s = (Some TypeError, s)"
  by (simp add: playAnimation_def)

lemma getProp_Own: "map_of idx i = Some m \<Longrightarrow> getProp idx i = Own m"
  by (simp add: getProp_def)

lemma play_unknown:
  "indexMap s = Some idx \<Longrightarrow> map_of idx i = None \<Longrightarrow>
   playAnimation i el s =
     (if i \<in> set objectPrototypeNames then (Some TypeError, s)
      else (None, s\<lparr>console := WarnAnimMissing i # console s\<rparr>))"
  by (simp add: playAnimation_def getProp_def)

lemma play_no_anim:
  "indexMap s = Some idx \<Longrightarrow> map_of idx i = Some m \<Longrightarrow> buffer s = None \<or> anim m = None \<Longrightarrow>
   playAnimation i el s = (Some TypeError, s)"
  by (auto simp: playAnimation_def getProp_Own split: option.splits)

lemma play_ok:
  "indexMap s = Some idx \<Longrightarrow> map_of idx i = Some m \<Longrightarrow> buffer s = Some buf \<Longrightarrow>
   anim m = Some r \<Longrightarrow>
   playAnimation i el s =
     (None, s\<lparr>nextUrl := Suc (nextUrl s),
              blobs := (blobs s)(nextUrl s \<mapsto>
                 slice buf (payloadStart s + offset r)
                           (payloadStart s + offset r + length_r r)),
              trace := Created AnimHandle (nextUrl s) # trace s,
              activeState := Playing i el (nextUrl s),
              srcOf := (srcOf s)(el \<mapsto> nextUrl s),
              observed := insert el (observed s)\<rparr>)"
  by (simp add: playAnimation_def getProp_Own createObjectURL_def Let_def)

lemma wf_console [simp]: "wf (s\<lparr>console := c\<rparr>) = wf s"
  by (simp add: wf_def activeUrl_def activeId_def)

lemma wf_play_ok:
  assumes "wf s" "activeState s = Idle" "i \<noteq> []"
  shows "wf (s\<lparr>nextUrl := Suc (nextUrl s),
              blobs := (blobs s)(nextUrl s \<mapsto> bytes),
              trace := Created AnimHandle (nextUrl s) # trace s,
              activeState := Playing i el (nextUrl s),
              srcOf := sf,
              observed := ob\<rparr>)"
proof -
  from assms have f: "fresh_from (trace s) (nextUrl s)" and la: "live_anim (trace s) = {}"
    and th: "snd ` set (thumbUrls s) \<subseteq> live (trace s)"
    by (auto simp: wf_def activeUrl_def)
  have nt: "nextUrl s \<notin> snd ` set (thumbUrls s)"
    using th fresh_from_not_live [OF f] by blast
  show ?thesis
    using assms f la nt
    by (auto simp: wf_def activeUrl_def activeId_def fresh_from_Created
        fresh_from_not_created revoked_once_Created one_anim_def released_before_play_def)
qed

lemma wf_play:
  assumes "wf s" "activeState s = Idle" "i \<noteq> []"
  shows "wf (snd (playAnimation i el s))"
proof (cases "indexMap s")
  case None
  then show ?thesis using assms by (simp add: play_unloaded)
next
  case (Some idx)
  show ?thesis
  proof (cases "map_of idx i")
    case None
    then show ?thesis using assms Some by (simp add: play_unknown)
  next
    case m: (Some m)
    show ?thesis
    proof (cases "buffer s = None \<or> anim m = None")
      case True
      then show ?thesis using assms by (simp add: play_no_anim [OF Some m])
    next
      case False
      then obtain buf r where "buffer s = Some buf" "anim m = Some r" by auto
      then show ?thesis
        using wf_play_ok [OF assms] by (simp add: play_ok [OF Some m])
    qed
  qed
qed

lemma truthy_activeId: "wf s \<Longrightarrow> truthy (activeId s) = (activeState s \<noteq> Idle)"
  by (cases "activeState s") (auto simp: truthy_def activeId_def wf_def)

lemma handleTap_ignored:
  "tagName t \<noteq> ''IMG'' \<or> \<not> truthy (dataset_id t) \<Longrightarrow> handleTap s t = (None, s)"
  by (auto simp: handleTap_def)

lemma handleTap_wf:
  assumes "wf s" "tagName t = ''IMG''" "dataset_id t = Some i" "i \<noteq> []"
  shows "handleTap s t =
           (if activeId s = Some i then (None, stopActiveAnimation s)
            else playAnimation i (ref t) (stopActiveAnimation s))"
  using assms
  by (cases "activeState s")
     (auto simp: handleTap_def truthy_def Let_def stop_Idle activeId_def wf_def)

lemma wf_handleTap:
  assumes "wf s" shows "wf (snd (handleTap s t))"
proof (cases "tagName t \<noteq> ''IMG'' \<or> \<not> truthy (dataset_id t)")
  case True
  then show ?thesis using assms by (simp add: handleTap_ignored)
next
  case False
  then obtain i where i: "tagName t = ''IMG''" "dataset_id t = Some i" "i \<noteq> []"
    by (auto simp: truthy_def split: option.splits)
  show ?thesis
    using assms wf_stop [OF assms] activeState_stop [OF assms]
    by (simp add: handleTap_wf [OF assms i] wf_play i)
qed

lemma wf_observerEntry: "wf s \<Longrightarrow> wf (observerEntry s e)"
  by (simp add: observerEntry_def wf_stop)

lemma wf_observerCallback: "wf s \<Longrightarrow> wf (observerCallback s es)"
  unfolding observerCallback_def
  by (induction es arbitrary: s) (simp_all add: wf_observerEntry)

lemma wf_step: "wf s \<Longrightarrow> wf (step s ev)"
  by (cases ev) (simp_all add: step_def wf_handleTap wf_stop wf_observerCallback)

lemma wf_run: "wf s \<Longrightarrow> wf (run s evs)"
  unfolding run_def by (induction evs arbitrary: s) (simp_all add: wf_step)

section \<open>Thumbnails and loading keep the invariant\<close>

lemma always_head: "always P tr \<Longrightarrow> P tr"
  by (cases tr) simp_all

lemma snd_set_map_set: "snd ` set (map_set k v ps) \<subseteq> insert v (snd ` set ps)"
  by (induction ps) auto

lemma distinct_map_set:
  "distinct (map snd ps) \<Longrightarrow> v \<notin> snd ` set ps \<Longrightarrow> distinct (map snd (map_set k v ps))"
  using snd_set_map_set [of k v]
  by (induction ps) (auto simp: image_iff)

lemma map_of_map_set: "map_of (map_set k v ps) = (map_of ps)(k \<mapsto> v)"
  by (induction ps) auto

lemma map_set_new: "k \<notin> fst ` set ps \<Longrightarrow> map_set k v ps = ps @ [(k, v)]"
  by (induction ps) auto

lemma fst_set_map_set: "fst ` set (map_set k v ps) = insert k (fst ` set ps)"
  by (induction ps) auto

lemma thumbEntry_fail:
  "buffer s = None \<or> thumb m = None \<Longrightarrow> thumbEntry i m s = (Some TypeError, s)"
  by (auto simp: thumbEntry_def split: option.splits)

lemma thumbEntry_ok:
  "buffer s = Some buf \<Longrightarrow> thumb m = Some r \<Longrightarrow>
   thumbEntry i m s =
     (None, s\<lparr>nextUrl := Suc (nextUrl s),
              blobs := (blobs s)(nextUrl s \<mapsto>
                 slice buf (payloadStart s + offset r)
                           (payloadStart s + offset r + length_r r)),
              trace := Created ThumbHandle (nextUrl s) # trace s,
              thumbUrls := map_set i (nextUrl s) (thumbUrls s)\<rparr>)"
  by (simp add: thumbEntry_def createObjectURL_def)

lemma disjoint_grow:
  "A \<inter> T = {} \<Longrightarrow> T' \<subseteq> insert n T \<Longrightarrow> A \<subseteq> L \<Longrightarrow> n \<notin> L \<Longrightarrow> A \<inter> T' = {}"
  by blast

lemma subset_grow: "T' \<subseteq> insert n T \<Longrightarrow> T \<subseteq> L \<Longrightarrow> T' \<subseteq> insert n L"
  by blast

lemma wf_thumb_ok:
  assumes "wf s"
  shows "wf (s\<lparr>nextUrl := Suc (nextUrl s),
              blobs := (blobs s)(nextUrl s \<mapsto> bytes),
              trace := Created ThumbHandle (nextUrl s) # trace s,
              thumbUrls := map_set i (nextUrl s) (thumbUrls s)\<rparr>)"
proof -
  let ?n = "nextUrl s"
  let ?tr = "Created ThumbHandle ?n # trace s"
  let ?th = "map_set i ?n (thumbUrls s)"
  from assms have f: "fresh_from (trace s) ?n"
    and b: "dom (blobs s) = live (trace s)"
    and th: "snd ` set (thumbUrls s) \<subseteq> live (trace s)"
    and a: "set_option (activeUrl s) \<subseteq> live (trace s)"
    and d: "distinct (map snd (thumbUrls s))"
    and x: "set_option (activeUrl s) \<inter> snd ` set (thumbUrls s) = {}"
    and r: "revoked_once (trace s)"
    and e: "activeId s \<noteq> Some []"
    and la: "live_anim (trace s) = set_option (activeUrl s)"
    and al: "always one_anim (trace s)"
    by (simp_all add: wf_def)
  have nl: "?n \<notin> live (trace s)"
    by (rule fresh_from_not_live [OF f])
  have nt: "?n \<notin> snd ` set (thumbUrls s)"
    using th nl by blast
  have sub: "snd ` set ?th \<subseteq> insert ?n (snd ` set (thumbUrls s))"
    by (rule snd_set_map_set)
  have 1: "fresh_from ?tr (Suc ?n)"
    by (rule fresh_from_Created [OF f])
  have 2: "dom ((blobs s)(?n \<mapsto> bytes)) = live ?tr"
    using b by simp
  have 3: "snd ` set ?th \<subseteq> live ?tr"
    using subset_grow [OF sub th] by simp
  have 4: "set_option (activeUrl s) \<subseteq> live ?tr"
    using a by auto
  have 5: "distinct (map snd ?th)"
    by (rule distinct_map_set [OF d nt])
  have 6: "set_option (activeUrl s) \<inter> snd ` set ?th = {}"
    by (rule disjoint_grow [OF x sub a nl])
  have 7: "revoked_once ?tr"
    by (rule revoked_once_Created [OF r fresh_from_not_created [OF f]])
  have 9: "live_anim ?tr = set_option (activeUrl s)"
    using la by simp
  have "one_anim (trace s)"
    by (rule always_head [OF al])
  then have 10: "always one_anim ?tr"
    using al by (simp add: one_anim_def released_before_play_def)
  show ?thesis
    unfolding wf_def
    using 1 2 3 4 5 6 7 e 9 10
    by (simp add: activeUrl_def activeId_def)
qed

lemma wf_thumbEntry: "wf s \<Longrightarrow> wf (snd (thumbEntry i m s))"
  by (cases "buffer s"; cases "thumb m")
     (simp_all add: thumbEntry_fail thumbEntry_ok wf_thumb_ok)

lemma wf_thumbLoop: "wf s \<Longrightarrow> wf (snd (thumbLoop idx s))"
proof (induction idx arbitrary: s)
  case Nil
  then show ?case by simp
next
  case (Cons p idx)
  obtain i m where p: "p = (i, m)" by (cases p)
  obtain e s1 where t: "thumbEntry i m s = (e, s1)" by (cases "thumbEntry i m s")
  have "wf s1" using wf_thumbEntry [OF Cons.prems, of i m] t by simp
  then show ?case using Cons.IH [of s1] Cons.prems
    by (cases e) (simp_all add: p t)
qed

lemma wf_data [simp]:
  "wf (s\<lparr>buffer := b\<rparr>) = wf s"
  "wf (s\<lparr>indexMap := ix\<rparr>) = wf s"
  "wf (s\<lparr>payloadStart := ps\<rparr>) = wf s"
  "wf (s\<lparr>listening := l\<rparr>) = wf s"
  "wf (s\<lparr>observed := ob\<rparr>) = wf s"
  "wf (s\<lparr>srcOf := sf\<rparr>) = wf s"
  by (simp_all add: wf_def activeUrl_def activeId_def)

lemma wf_initThumbnails: "wf s \<Longrightarrow> wf (snd (initThumbnails s))"
  by (simp add: initThumbnails_def wf_thumbLoop split: option.splits)

lemma wf_loadBody: "wf s \<Longrightarrow> wf (snd (loadBody parse fr s))"
  by (auto simp: loadBody_def Let_def wf_initThumbnails
      split: fetch_result.splits sum.splits parsed.splits)

lemma wf_load: "wf s \<Longrightarrow> wf (snd (load parse fr s))"
  using wf_loadBody [of s parse fr]
  by (auto simp: load_def split: prod.splits option.splits)

lemma wf_new_engine: "wf new_engine"
  by (simp add: wf_def new_engine_def fresh_from_def revoked_once_def activeUrl_def activeId_def
      one_anim_def released_before_play_def)

section \<open>What events leave alone\<close>

lemma same_data_refl [simp]: "same_data s s"
  by (simp add: same_data_def)

lemma same_data_trans: "same_data s s1 \<Longrightarrow> same_data s1 s2 \<Longrightarrow> same_data s s2"
  by (simp add: same_data_def)

lemma same_data_stop: "same_data s (stopActiveAnimation s)"
  by (simp add: same_data_def stopActiveAnimation_def revokeObjectURL_def Let_def
      split: active_state.splits)

lemma same_data_play: "same_data s (snd (playAnimation i el s))"
  by (simp add: same_data_def playAnimation_def createObjectURL_def Let_def
      split: option.splits property.splits)

lemma same_data_handleTap: "same_data s (snd (handleTap s t))"
  using same_data_trans [OF same_data_stop same_data_play]
  by (simp add: handleTap_def Let_def same_data_stop same_data_play split: option.splits)

lemma same_data_observerEntry: "same_data s (observerEntry s e)"
  by (simp add: observerEntry_def same_data_stop)

lemma same_data_observerCallback: "same_data s (observerCallback s es)"
  unfolding observerCallback_def
proof (induction es arbitrary: s)
  case Nil
  show ?case by simp
next
  case (Cons e es)
  show ?case
    using same_data_trans [OF same_data_observerEntry Cons.IH] by simp
qed

lemma same_data_step: "same_data s (step s ev)"
  by (cases ev)
     (simp_all add: step_def same_data_handleTap same_data_stop same_data_observerCallback)

lemma same_data_run: "same_data s (run s evs)"
  unfolding run_def
proof (induction evs arbitrary: s)
  case Nil
  show ?case by simp
next
  case (Cons ev evs)
  show ?case
    using same_data_trans [OF same_data_step Cons.IH] by simp
qed

section \<open>No URL alive outside the cache and the active state\<close>

lemma tight_stop:
  assumes "wf s" "tight s"
  shows "tight (stopActiveAnimation s)"
proof (cases "activeState s")
  case Idle
  then show ?thesis using assms by (simp add: stop_Idle)
next
  case (Playing i el u)
  from assms(1) have ne: "i \<noteq> []" by (simp add: wf_def activeId_def Playing)
  show ?thesis
    using assms(2)
    by (auto simp: stop_Playing [OF Playing ne] tight_def activeUrl_def Playing)
qed

lemma tight_console [simp]: "tight (s\<lparr>console := c\<rparr>) = tight s"
  by (simp add: tight_def activeUrl_def)

lemma tight_play:
  assumes "tight s" "activeState s = Idle"
  shows "tight (snd (playAnimation i el s))"
  using assms
  by (auto simp: playAnimation_def createObjectURL_def Let_def tight_def activeUrl_def
      split: option.splits property.splits)

lemma tight_handleTap:
  assumes "wf s" "tight s"
  shows "tight (snd (handleTap s t))"
proof (cases "tagName t \<noteq> ''IMG'' \<or> \<not> truthy (dataset_id t)")
  case True
  then show ?thesis using assms by (simp add: handleTap_ignored)
next
  case False
  then obtain i where i: "tagName t = ''IMG''" "dataset_id t = Some i" "i \<noteq> []"
    by (auto simp: truthy_def split: option.splits)
  show ?thesis
    using tight_stop [OF assms] activeState_stop [OF assms(1)]
    by (simp add: handleTap_wf [OF assms(1) i] tight_play)
qed

lemma tight_observerEntry: "wf s \<Longrightarrow> tight s \<Longrightarrow> tight (observerEntry s e)"
  by (simp add: observerEntry_def tight_stop)

lemma tight_observerCallback: "wf s \<Longrightarrow> tight s \<Longrightarrow> tight (observerCallback s es)"
  unfolding observerCallback_def
  by (induction es arbitrary: s) (simp_all add: wf_observerEntry tight_observerEntry)

lemma tight_step: "wf s \<Longrightarrow> tight s \<Longrightarrow> tight (step s ev)"
  by (cases ev) (simp_all add: step_def tight_handleTap tight_stop tight_observerCallback)

lemma tight_run: "wf s \<Longrightarrow> tight s \<Longrightarrow> tight (run s evs)"
  unfolding run_def
  by (induction evs arbitrary: s) (simp_all add: wf_step tight_step)

lemma tight_data [simp]:
  "tight (s\<lparr>buffer := b\<rparr>) = tight s"
  "tight (s\<lparr>indexMap := ix\<rparr>) = tight s"
  "tight (s\<lparr>payloadStart := ps\<rparr>) = tight s"
  "tight (s\<lparr>listening := l\<rparr>) = tight s"
  "tight (s\<lparr>observed := ob\<rparr>) = tight s"
  "tight (s\<lparr>srcOf := sf\<rparr>) = tight s"
  by (simp_all add: tight_def activeUrl_def)

lemma tight_thumbEntry:
  assumes "tight s" "i \<notin> fst ` set (thumbUrls s)"
  shows "tight (snd (thumbEntry i m s))"
proof (cases "buffer s = None \<or> thumb m = None")
  case True
  then show ?thesis using assms by (simp add: thumbEntry_fail)
next
  case False
  then obtain buf r where br: "buffer s = Some buf" "thumb m = Some r" by auto
  show ?thesis
    using assms
    by (auto simp: thumbEntry_ok [OF br] tight_def activeUrl_def map_set_new)
qed

lemma keys_thumbEntry:
  "fst ` set (thumbUrls (snd (thumbEntry i m s))) \<subseteq> insert i (fst ` set (thumbUrls s))"
  by (cases "buffer s"; cases "thumb m")
     (auto simp: thumbEntry_fail thumbEntry_ok fst_set_map_set)

lemma disjoint_keys_step:
  "K' \<subseteq> insert i K \<Longrightarrow> i \<notin> I \<Longrightarrow> insert i I \<inter> K = {} \<Longrightarrow> I \<inter> K' = {}"
  by blast

lemma tight_thumbLoop:
  assumes "tight s" "distinct (map fst idx)" "fst ` set idx \<inter> fst ` set (thumbUrls s) = {}"
  shows "tight (snd (thumbLoop idx s))"
  using assms
proof (induction idx arbitrary: s)
  case Nil
  then show ?case by simp
next
  case (Cons p idx)
  obtain i m where p: "p = (i, m)" by (cases p)
  obtain e s1 where t: "thumbEntry i m s = (e, s1)" by (cases "thumbEntry i m s")
  from Cons.prems p have ni: "i \<notin> fst ` set (thumbUrls s)" and d: "distinct (map fst idx)"
    and nr: "i \<notin> fst ` set idx" and dj: "insert i (fst ` set idx) \<inter> fst ` set (thumbUrls s) = {}"
    by auto
  have t1: "tight s1"
    using tight_thumbEntry [OF Cons.prems(1) ni, of m] t by simp
  have k: "fst ` set (thumbUrls s1) \<subseteq> insert i (fst ` set (thumbUrls s))"
    using keys_thumbEntry [of i m s] t by simp
  have dj1: "fst ` set idx \<inter> fst ` set (thumbUrls s1) = {}"
    by (rule disjoint_keys_step [OF k nr dj])
  show ?case
    using Cons.IH [OF t1 d dj1] t1
    by (cases e) (simp_all add: p t)
qed

lemma thumbEntry_frame:
  "buffer (snd (thumbEntry i m s)) = buffer s
   \<and> indexMap (snd (thumbEntry i m s)) = indexMap s
   \<and> payloadStart (snd (thumbEntry i m s)) = payloadStart s
   \<and> activeState (snd (thumbEntry i m s)) = activeState s
   \<and> console (snd (thumbEntry i m s)) = console s"
  by (cases "buffer s"; cases "thumb m") (simp_all add: thumbEntry_fail thumbEntry_ok)

lemma thumbLoop_frame:
  "buffer (snd (thumbLoop idx s)) = buffer s
   \<and> indexMap (snd (thumbLoop idx s)) = indexMap s
   \<and> payloadStart (snd (thumbLoop idx s)) = payloadStart s
   \<and> activeState (snd (thumbLoop idx s)) = activeState s
   \<and> console (snd (thumbLoop idx s)) = console s"
proof (induction idx arbitrary: s)
  case Nil
  show ?case by simp
next
  case (Cons p idx)
  obtain i m where p: "p = (i, m)" by (cases p)
  obtain e s1 where t: "thumbEntry i m s = (e, s1)" by (cases "thumbEntry i m s")
  show ?case
    using thumbEntry_frame [of i m s] Cons.IH [of s1]
    by (cases e) (simp_all add: p t)
qed

lemma tight_initThumbnails:
  assumes "tight s" "thumbUrls s = []" "distinct_keys s"
  shows "tight (snd (initThumbnails s))"
proof (cases "indexMap s")
  case None
  then show ?thesis using assms by (simp add: initThumbnails_def)
next
  case (Some idx)
  then have "distinct (map fst idx)" using assms(3) by (simp add: distinct_keys_def)
  then show ?thesis
    using tight_thumbLoop [of s idx] assms by (simp add: initThumbnails_def Some)
qed

lemma indexMap_initThumbnails: "indexMap (snd (initThumbnails s)) = indexMap s"
  using thumbLoop_frame by (simp add: initThumbnails_def split: option.splits)

lemma tight_loadBody:
  assumes "tight s" "thumbUrls s = []" "distinct_keys (snd (loadBody parse fr s))"
  shows "tight (snd (loadBody parse fr s))"
proof (cases fr)
  case Rejected
  then show ?thesis using assms by (simp add: loadBody_def)
next
  case (Response ok status body)
  show ?thesis
  proof (cases "ok \<and> (\<exists>L txt idx. getUint32 body = Inr L \<and> uint8View body 4 L = Inr txt \<and> parse txt = JsonObject idx)")
    case False
    then show ?thesis using assms(1)
      by (auto simp: loadBody_def Response Let_def split: sum.splits parsed.splits)
  next
    case True
    then obtain L tx idx where ok: "ok" and g: "getUint32 body = Inr L"
      and v: "uint8View body 4 L = Inr tx" and pa: "parse tx = JsonObject idx" by auto
    let ?s1 = "s\<lparr>buffer := Some body, indexMap := Some idx, payloadStart := 4 + int L\<rparr>"
    have eq: "loadBody parse fr s = initThumbnails ?s1"
      by (simp add: loadBody_def Response ok g v pa Let_def)
    have "distinct_keys ?s1"
      using assms(3) indexMap_initThumbnails [of ?s1]
      by (simp add: eq distinct_keys_def)
    then show ?thesis
      using tight_initThumbnails [of ?s1] assms(1,2) by (simp add: eq)
  qed
qed

lemma tight_load:
  assumes "tight s" "thumbUrls s = []" "distinct_keys (snd (load parse fr s))"
  shows "tight (snd (load parse fr s))"
proof -
  obtain e s1 where l: "loadBody parse fr s = (e, s1)" by (cases "loadBody parse fr s")
  have "distinct_keys s1"
    using assms(3) by (cases e) (simp_all add: load_def l distinct_keys_def)
  then have "tight s1" using tight_loadBody [OF assms(1,2), of parse fr] l by simp
  then show ?thesis by (cases e) (simp_all add: load_def l)
qed

lemma tight_new_engine: "tight new_engine"
  by (simp add: tight_def new_engine_def)

section \<open>Revoking the thumbnails\<close>

lemma revoke_all:
  assumes "distinct us" "set us \<subseteq> live (trace s)" "revoked_once (trace s)"
    "dom (blobs s) = live (trace s)"
  shows "live (trace (foldl (\<lambda>st u. revokeObjectURL u st) s us)) = live (trace s) - set us
     \<and> dom (blobs (foldl (\<lambda>st u. revokeObjectURL u st) s us))
         = live (trace (foldl (\<lambda>st u. revokeObjectURL u st) s us))
     \<and> revoked_once (trace (foldl (\<lambda>st u. revokeObjectURL u st) s us))"
  using assms
proof (induction us arbitrary: s)
  case Nil
  then show ?case by simp
next
  case (Cons u us)
  let ?s1 = "revokeObjectURL u s"
  have l1: "live (trace ?s1) = live (trace s) - {u}"
    by (simp add: revokeObjectURL_def)
  have a: "distinct us" using Cons.prems(1) by simp
  have b: "set us \<subseteq> live (trace ?s1)"
    using Cons.prems(1,2) l1 by auto
  have c: "revoked_once (trace ?s1)"
    using revoked_once_Revoked [OF Cons.prems(3), of u] Cons.prems(2)
    by (simp add: revokeObjectURL_def)
  have d: "dom (blobs ?s1) = live (trace ?s1)"
    using Cons.prems(4) by (auto simp: revokeObjectURL_def)
  have "live (trace ?s1) - set us = live (trace s) - set (u # us)"
    using l1 by auto
  then show ?case
    using Cons.IH [OF a b c d] by simp
qed

lemma revoke_all_frame:
  "thumbUrls (foldl (\<lambda>st u. revokeObjectURL u st) s us) = thumbUrls s
   \<and> activeState (foldl (\<lambda>st u. revokeObjectURL u st) s us) = activeState s
   \<and> observed (foldl (\<lambda>st u. revokeObjectURL u st) s us) = observed s
   \<and> listening (foldl (\<lambda>st u. revokeObjectURL u st) s us) = listening s"
  by (induction us arbitrary: s) (simp_all add: revokeObjectURL_def)

lemma dispose_clean:
  assumes "wf s" "tight s"
  shows "live (trace (dispose s)) = {} \<and> blobs (dispose s) = Map.empty
     \<and> revoked_once (trace (dispose s))
     \<and> thumbUrls (dispose s) = [] \<and> buffer (dispose s) = None \<and> indexMap (dispose s) = None
     \<and> activeState (dispose s) = Idle \<and> observed (dispose s) = {} \<and> \<not> listening (dispose s)"
proof -
  let ?s1 = "stopActiveAnimation s"
  let ?s3 = "?s1\<lparr>listening := False, observed := {}\<rparr>"
  let ?us = "map snd (thumbUrls ?s3)"
  let ?s4 = "foldl (\<lambda>st u. revokeObjectURL u st) ?s3 ?us"
  have w1: "wf ?s1" by (rule wf_stop [OF assms(1)])
  have t1: "tight ?s1" by (rule tight_stop [OF assms])
  have i1: "activeState ?s1 = Idle" by (rule activeState_stop [OF assms(1)])
  from w1 have d: "distinct ?us" and sub: "set ?us \<subseteq> live (trace ?s3)"
    and r: "revoked_once (trace ?s3)" and b: "dom (blobs ?s3) = live (trace ?s3)"
    by (simp_all add: wf_def)
  have l3: "live (trace ?s3) \<subseteq> set ?us"
    using t1 i1 by (simp add: tight_def activeUrl_def)
  note ra = revoke_all [OF d sub r b]
  have e: "live (trace ?s4) = {}" using ra l3 by auto
  then have be: "blobs ?s4 = Map.empty" using ra by auto
  have eq: "dispose s = ?s4\<lparr>thumbUrls := [], buffer := None, indexMap := None\<rparr>"
    by (simp add: dispose_def Let_def)
  show ?thesis
    using e be ra revoke_all_frame [of ?s3 ?us] i1
    by (simp add: eq)
qed

lemma revoked_once_dead:
  "revoked_once tr \<Longrightarrow> live tr = {} \<Longrightarrow> count_list tr (Revoked u) = (if created tr u then 1 else 0)"
  by (simp add: revoked_once_def)

lemma created_iff: "created tr u = (\<exists>k. Created k u \<in> set tr)"
  by (auto simp: created_def) (metis handle_kind.exhaust)

lemma wf_loaded_run: "wf (run (snd (load parse fr new_engine)) evs)"
  by (rule wf_run [OF wf_load [OF wf_new_engine]])

section \<open>One animation at a time\<close>

text \<open>
  Claim C1. On a loaded engine, after any sequence of taps, the trace of calls to the
  Blob URL store shows at every moment at most one animation URL alive, and each
  creation of an animation URL happens when none is alive (the previous one has been
  revoked before). The animation URL alive at the end, if any, is the one held in
  \<open>activeState\<close>.
\<close>

theorem single_active_animation:
  fixes taps :: "tap_target list"
  assumes "fst (load parse fr new_engine) = None"
  defines "s \<equiv> run (snd (load parse fr new_engine)) (map Tap taps)"
  shows "always (\<lambda>t. card (live_anim t) \<le> 1 \<and> released_before_play t) (trace s)
     \<and> live_anim (trace s) = set_option (activeUrl s)"
proof -
  have "wf s" unfolding s_def by (rule wf_loaded_run)
  moreover have "one_anim = (\<lambda>t. card (live_anim t) \<le> 1 \<and> released_before_play t)"
    by (rule ext) (simp add: one_anim_def)
  ultimately show ?thesis by (simp add: wf_def)
qed

lemma tap_a_ex_loaded: "handleTap ex_loaded img_a = (None, ex_playing)"
  using slice_ex_blob [of 4 8]
  apply (simp add: handleTap_def img_a_def truthy_def activeId_def playAnimation_def
      getProp_def createObjectURL_def Let_def ex_loaded_def ex_index_def ex_playing_def)
  apply (simp add: ex_payload_def)
  done

lemma run_tap_a: "run ex_loaded [Tap img_a] = ex_playing"
  by (simp add: run_def step_def tap_a_ex_loaded)

theorem single_active_animation_witness:
  "fst (load ex_parse ex_response new_engine) = None
   \<and> always (\<lambda>t. card (live_anim t) \<le> 1 \<and> released_before_play t)
        (trace (run (snd (load ex_parse ex_response new_engine)) (map Tap [img_a, img_b])))
   \<and> live_anim (trace (run (snd (load ex_parse ex_response new_engine))
        (map Tap [img_a, img_b])))
      = set_option (activeUrl (run (snd (load ex_parse ex_response new_engine))
          (map Tap [img_a, img_b])))"
proof -
  have l: "fst (load ex_parse ex_response new_engine) = None"
    by (simp add: load_ex_blob)
  show ?thesis
    using single_active_animation [OF l, of "[img_a, img_b]"] l by simp
qed

section \<open>What a successful load leaves behind\<close>

lemma thumbEntry_NoneD:
  assumes "thumbEntry i m s = (None, s1)"
  obtains buf r where "buffer s = Some buf" "thumb m = Some r"
proof (cases "buffer s = None \<or> thumb m = None")
  case True
  then have "thumbEntry i m s = (Some TypeError, s)" by (rule thumbEntry_fail)
  then show ?thesis using assms by simp
next
  case False
  then show ?thesis using that by auto
qed

lemma thumbLoop_result:
  assumes "thumbLoop idx s = (None, s')" "distinct (map fst idx)"
  shows "nextUrl s \<le> nextUrl s'
    \<and> (\<forall>u<nextUrl s. blobs s' u = blobs s u)
    \<and> (\<forall>j. j \<notin> fst ` set idx \<longrightarrow> map_of (thumbUrls s') j = map_of (thumbUrls s) j)
    \<and> (\<forall>(j, e) \<in> set idx. \<exists>r u buf. thumb e = Some r \<and> buffer s = Some buf
           \<and> map_of (thumbUrls s') j = Some u
           \<and> blobs s' u = Some (slice buf (payloadStart s + offset r)
                                         (payloadStart s + offset r + length_r r)))"
  using assms
proof (induction idx arbitrary: s)
  case Nil
  then show ?case by simp
next
  case (Cons p idx)
  obtain i m where p: "p = (i, m)" by (cases p)
  have pr: "thumbLoop ((i, m) # idx) s = (None, s')" and d: "distinct (map fst idx)"
    and ni: "i \<notin> fst ` set idx"
    using Cons.prems p by auto
  obtain e s1 where t: "thumbEntry i m s = (e, s1)" by (cases "thumbEntry i m s")
  have e: "e = None" using pr t by (cases e) auto
  have l1: "thumbLoop idx s1 = (None, s')" using pr t e by simp
  obtain buf r where br: "buffer s = Some buf" "thumb m = Some r"
    using t e thumbEntry_NoneD by blast
  have s1: "s1 = s\<lparr>nextUrl := Suc (nextUrl s),
              blobs := (blobs s)(nextUrl s \<mapsto>
                 slice buf (payloadStart s + offset r)
                           (payloadStart s + offset r + length_r r)),
              trace := Created ThumbHandle (nextUrl s) # trace s,
              thumbUrls := map_set i (nextUrl s) (thumbUrls s)\<rparr>"
    using t thumbEntry_ok [OF br, of i] by simp
  note ih = Cons.IH [OF l1 d]
  have n1: "nextUrl s1 = Suc (nextUrl s)" and b1: "buffer s1 = Some buf"
    and ps1: "payloadStart s1 = payloadStart s"
    and bl1: "blobs s1 = (blobs s)(nextUrl s \<mapsto>
                 slice buf (payloadStart s + offset r)
                           (payloadStart s + offset r + length_r r))"
    and th1: "thumbUrls s1 = map_set i (nextUrl s) (thumbUrls s)"
    by (simp_all add: s1 br)
  have c1: "nextUrl s \<le> nextUrl s'" using ih n1 by simp
  have c2: "\<forall>u<nextUrl s. blobs s' u = blobs s u" using ih n1 bl1 by simp
  have c3: "\<forall>j. j \<notin> fst ` set (p # idx) \<longrightarrow> map_of (thumbUrls s') j = map_of (thumbUrls s) j"
    using ih th1 by (simp add: p map_of_map_set)
  have hd: "map_of (thumbUrls s') i = Some (nextUrl s)"
    using ih ni th1 by (simp add: map_of_map_set)
  have hb: "blobs s' (nextUrl s) = Some (slice buf (payloadStart s + offset r)
                                         (payloadStart s + offset r + length_r r))"
    using ih n1 bl1 by simp
  have c4: "\<forall>(j, e) \<in> set (p # idx). \<exists>r u buf. thumb e = Some r \<and> buffer s = Some buf
           \<and> map_of (thumbUrls s') j = Some u
           \<and> blobs s' u = Some (slice buf (payloadStart s + offset r)
                                         (payloadStart s + offset r + length_r r))"
    using ih hd hb br b1 ps1 by (auto simp: p)
  show ?case using c1 c2 c3 c4 by blast
qed

lemma keys_grow: "A \<union> K1 \<subseteq> K' \<Longrightarrow> K1 = insert i K \<Longrightarrow> insert i A \<union> K \<subseteq> K'"
  by blast

lemma thumbLoop_keys_acc:
  "thumbLoop idx s = (None, s') \<Longrightarrow>
   fst ` set idx \<union> fst ` set (thumbUrls s) \<subseteq> fst ` set (thumbUrls s')"
proof (induction idx arbitrary: s)
  case Nil
  then show ?case by simp
next
  case (Cons p idx)
  obtain i m where p: "p = (i, m)" by (cases p)
  obtain e s1 where t: "thumbEntry i m s = (e, s1)" by (cases "thumbEntry i m s")
  have e: "e = None" using Cons.prems t p by (cases e) auto
  have l1: "thumbLoop idx s1 = (None, s')" using Cons.prems p t e by simp
  obtain buf r where br: "buffer s = Some buf" "thumb m = Some r"
    using t e thumbEntry_NoneD by blast
  have "thumbUrls s1 = map_set i (nextUrl s) (thumbUrls s)"
    using t thumbEntry_ok [OF br, of i] by auto
  then have k1: "fst ` set (thumbUrls s1) = insert i (fst ` set (thumbUrls s))"
    by (simp only: fst_set_map_set)
  show ?case
    using keys_grow [OF Cons.IH [OF l1] k1] by (simp add: p)
qed

lemma thumbLoop_keys:
  "thumbLoop idx s = (None, s') \<Longrightarrow> fst ` set idx \<subseteq> fst ` set (thumbUrls s')"
  using thumbLoop_keys_acc by blast

lemma load_okD:
  assumes "load parse fr s = (None, s0)"
  obtains status body L idx where "fr = Response True status body"
    "getUint32 body = Inr L" "length body \<ge> 4 + L"
    "parse (take L (drop 4 body)) = JsonObject idx"
    "thumbLoop idx (s\<lparr>buffer := Some body, indexMap := Some idx,
        payloadStart := 4 + int L\<rparr>) = (None, s0)"
proof -
  obtain e s1 where lb: "loadBody parse fr s = (e, s1)" by (cases "loadBody parse fr s")
  have e: "e = None" and s1: "s1 = s0" using assms lb by (cases e; simp add: load_def)+
  show ?thesis
    using lb e s1 that
    by (auto simp: loadBody_def Let_def uint8View_def initThumbnails_def
        split: fetch_result.splits if_splits sum.splits parsed.splits)
qed

section \<open>Slices and byte ranges\<close>

lemma filter_upt_less: "filter (\<lambda>k. k < n) [a..<b] = [a..<min b n]"
proof (induction b)
  case 0
  show ?case by simp
next
  case (Suc b)
  show ?case
  proof (cases "Suc b \<le> n")
    case True
    then show ?thesis using Suc by (auto simp: min_def)
  next
    case False
    then have "min (Suc b) n = min b n" by (simp add: min_def)
    then show ?thesis using Suc False by auto
  qed
qed

lemma map_nth_upt: "b \<le> length xs \<Longrightarrow> map (\<lambda>k. xs ! k) [a..<b] = take (b - a) (drop a xs)"
  by (rule nth_equalityI) (auto simp: min_def)

lemma byteRange_take_drop:
  "byteRange buf a b = take (min (nat b) (length buf) - nat a) (drop (nat a) buf)"
  by (simp add: byteRange_def filter_upt_less map_nth_upt)

lemma slice_byteRange: "0 \<le> a \<Longrightarrow> 0 \<le> b \<Longrightarrow> slice buf a b = byteRange buf a b"
  apply (simp add: byteRange_take_drop slice_def clampIndex_def Let_def)
  apply (auto simp: min_def max_def nat_diff_distrib)
  done

section \<open>The playing id stays a key of the index\<close>

lemma known_active_stop: "known_active s \<Longrightarrow> known_active (stopActiveAnimation s)"
  by (cases "activeState s")
     (auto simp: known_active_def stopActiveAnimation_def revokeObjectURL_def Let_def)

lemma known_active_play: "known_active s \<Longrightarrow> known_active (snd (playAnimation i el s))"
  by (auto simp: known_active_def playAnimation_def getProp_def createObjectURL_def Let_def
      split: option.splits active_state.splits property.splits if_splits)

lemma known_active_handleTap: "known_active s \<Longrightarrow> known_active (snd (handleTap s t))"
  by (simp add: handleTap_def Let_def known_active_stop known_active_play split: option.splits)

lemma known_active_observerEntry: "known_active s \<Longrightarrow> known_active (observerEntry s e)"
  by (simp add: observerEntry_def known_active_stop)

lemma known_active_observerCallback:
  "known_active s \<Longrightarrow> known_active (observerCallback s es)"
  unfolding observerCallback_def
  by (induction es arbitrary: s) (simp_all add: known_active_observerEntry)

lemma known_active_step: "known_active s \<Longrightarrow> known_active (step s ev)"
  by (cases ev)
     (simp_all add: step_def known_active_handleTap known_active_stop
        known_active_observerCallback)

lemma known_active_run: "known_active s \<Longrightarrow> known_active (run s evs)"
  unfolding run_def by (induction evs arbitrary: s) (simp_all add: known_active_step)

section \<open>Loaded engines\<close>

lemma loaded_start:
  assumes "load parse fr new_engine = (None, s0)"
  obtains status body L idx where "fr = Response True status body"
    "getUint32 body = Inr L" "4 + L \<le> length body"
    "parse (take L (drop 4 body)) = JsonObject idx"
    "buffer s0 = Some body" "indexMap s0 = Some idx" "payloadStart s0 = 4 + int L"
    "activeState s0 = Idle" "fst ` set idx \<subseteq> fst ` set (thumbUrls s0)"
    "thumbLoop idx (new_engine\<lparr>buffer := Some body, indexMap := Some idx,
        payloadStart := 4 + int L\<rparr>) = (None, s0)"
proof -
  from assms obtain status body L idx where a: "fr = Response True status body"
    "getUint32 body = Inr L" "length body \<ge> 4 + L"
    "parse (take L (drop 4 body)) = JsonObject idx"
    "thumbLoop idx (new_engine\<lparr>buffer := Some body, indexMap := Some idx,
        payloadStart := 4 + int L\<rparr>) = (None, s0)"
    by (rule load_okD)
  let ?s1 = "new_engine\<lparr>buffer := Some body, indexMap := Some idx, payloadStart := 4 + int L\<rparr>"
  have f: "buffer s0 = Some body" "indexMap s0 = Some idx" "payloadStart s0 = 4 + int L"
    "activeState s0 = Idle"
    using thumbLoop_frame [of idx ?s1] a(5) by (simp_all add: new_engine_def)
  have k: "fst ` set idx \<subseteq> fst ` set (thumbUrls s0)"
    by (rule thumbLoop_keys [OF a(5)])
  show ?thesis using that a f k by blast
qed

lemma loaded_run:
  assumes "load parse fr new_engine = (None, s0)"
  shows "wf (run s0 evs)" "known_active (run s0 evs)" "same_data s0 (run s0 evs)"
proof -
  have "wf s0" using wf_load [OF wf_new_engine, of parse fr] assms by simp
  then show "wf (run s0 evs)" by (rule wf_run)
  have "activeState s0 = Idle" using assms by (rule loaded_start)
  then have "known_active s0" by (simp add: known_active_def)
  then show "known_active (run s0 evs)" by (rule known_active_run)
  show "same_data s0 (run s0 evs)" by (rule same_data_run)
qed

lemma thumb_alive:
  assumes "wf s" "map_of (thumbUrls s) i = Some th"
  shows "blobs s th \<noteq> None"
proof -
  have "(i, th) \<in> set (thumbUrls s)" using assms(2) by (rule map_of_SomeD)
  then have "th \<in> snd ` set (thumbUrls s)" by force
  then have "th \<in> dom (blobs s)" using assms(1) by (auto simp: wf_def)
  then show ?thesis by auto
qed

lemma key_has_thumb:
  assumes "K \<subseteq> fst ` set th" "i \<in> K"
  shows "\<exists>u. map_of th i = Some u"
proof -
  have "i \<in> fst ` set th" using assms by blast
  then have "map_of th i \<noteq> None" by (simp add: map_of_eq_None_iff)
  then show ?thesis by auto
qed

section \<open>Switching\<close>

lemma nextUrl_stop: "nextUrl (stopActiveAnimation s) = nextUrl s"
  by (simp add: stopActiveAnimation_def revokeObjectURL_def Let_def split: active_state.splits)

lemma tap_plays_eq:
  assumes "wf s" "tagName t = ''IMG''" "dataset_id t = Some i" "i \<noteq> []"
    "activeId s \<noteq> Some i"
  shows "handleTap s t = playAnimation i (ref t) (stopActiveAnimation s)"
  using handleTap_wf [OF assms(1,2,3,4)] assms(5) by simp

lemma tap_plays:
  assumes "wf s" "buffer s = Some buf" "indexMap s = Some idx" "map_of idx i = Some m"
    "anim m = Some r" "tagName t = ''IMG''" "dataset_id t = Some i" "i \<noteq> []"
    "activeId s \<noteq> Some i"
  shows "fst (handleTap s t) = None
     \<and> activeState (snd (handleTap s t)) = Playing i (ref t) (nextUrl s)
     \<and> blobs (snd (handleTap s t))
          = (blobs (stopActiveAnimation s))(nextUrl s \<mapsto>
               slice buf (payloadStart s + offset r) (payloadStart s + offset r + length_r r))
     \<and> trace (snd (handleTap s t))
          = Created AnimHandle (nextUrl s) # trace (stopActiveAnimation s)
     \<and> srcOf (snd (handleTap s t)) = (srcOf (stopActiveAnimation s))(ref t \<mapsto> nextUrl s)
     \<and> observed (snd (handleTap s t)) = insert (ref t) (observed (stopActiveAnimation s))
     \<and> thumbUrls (snd (handleTap s t)) = thumbUrls s"
proof -
  let ?st = "stopActiveAnimation s"
  have sd: "same_data s ?st" by (rule same_data_stop)
  have a: "indexMap ?st = Some idx" "buffer ?st = Some buf"
    using sd assms(2,3) by (simp_all add: same_data_def)
  have b: "payloadStart ?st = payloadStart s" "thumbUrls ?st = thumbUrls s"
    using sd by (simp_all add: same_data_def)
  have h: "handleTap s t = playAnimation i (ref t) ?st"
    by (rule tap_plays_eq [OF assms(1,6,7,8,9)])
  show ?thesis
    by (simp add: h play_ok [OF a(1) assms(4) a(2) assms(5)] b nextUrl_stop)
qed

lemma active_not_next:
  assumes "wf s" "activeState s = Playing a el u"
  shows "u \<noteq> nextUrl s" "a \<noteq> []"
proof -
  have "u \<in> live (trace s)" using assms by (auto simp: wf_def activeUrl_def)
  moreover have "nextUrl s \<notin> live (trace s)"
  proof -
    have "fresh_from (trace s) (nextUrl s)" using assms(1) by (simp add: wf_def)
    then show ?thesis by (rule fresh_from_not_live)
  qed
  ultimately show "u \<noteq> nextUrl s" by auto
  show "a \<noteq> []" using assms by (simp add: wf_def activeId_def)
qed

text \<open>
  Claim C7. On a loaded engine that is playing \<open>a\<close>, a tap on an image whose id \<open>b\<close> is a
  different key of the index (with an \<open>anim\<close> range) first runs \<open>stopActiveAnimation\<close>:
  the URL of \<open>a\<close> is revoked, the element of \<open>a\<close> shows its thumbnail URL again and is
  no longer observed, and the engine is idle. Only then \<open>playAnimation\<close> creates the URL
  of \<open>b\<close>. At the end the engine plays \<open>b\<close> on the tapped element and the only animation
  URL alive is the one of \<open>b\<close>.
\<close>

theorem switch_releases_then_plays:
  fixes evs :: "event list"
  assumes loaded: "load parse fr new_engine = (None, s0)"
  defines "s \<equiv> run s0 evs"
  assumes playing: "activeState s = Playing a elA uA"
    and tap: "tagName t = ''IMG''" "dataset_id t = Some b" "b \<noteq> []" "b \<noteq> a"
    and known: "indexMap s = Some idx" "map_of idx b = Some m" "anim m = Some r"
  shows "playAnimation b (ref t) (stopActiveAnimation s) = handleTap s t
     \<and> activeState (stopActiveAnimation s) = Idle
     \<and> trace (stopActiveAnimation s) = Revoked uA # trace s
     \<and> blobs (stopActiveAnimation s) uA = None
     \<and> (\<exists>th. map_of (thumbUrls s) a = Some th
              \<and> srcOf (stopActiveAnimation s) elA = Some th
              \<and> blobs (stopActiveAnimation s) th \<noteq> None)
     \<and> elA \<notin> observed (stopActiveAnimation s)
     \<and> fst (handleTap s t) = None
     \<and> activeState (snd (handleTap s t)) = Playing b (ref t) (nextUrl s)
     \<and> trace (snd (handleTap s t)) = Created AnimHandle (nextUrl s) # Revoked uA # trace s
     \<and> blobs (snd (handleTap s t)) uA = None
     \<and> blobs (snd (handleTap s t)) (nextUrl s) \<noteq> None
     \<and> live_anim (trace (snd (handleTap s t))) = {nextUrl s}"
proof -
  let ?st = "stopActiveAnimation s"
  have w: "wf s" and ka: "known_active s" and sd: "same_data s0 s"
    unfolding s_def by (rule loaded_run [OF loaded])+
  from loaded obtain body idx0 where l: "buffer s0 = Some body" "indexMap s0 = Some idx0"
    "fst ` set idx0 \<subseteq> fst ` set (thumbUrls s0)"
    by (rule loaded_start)
  have buf: "buffer s = Some body" and i0: "idx0 = idx" and th: "thumbUrls s = thumbUrls s0"
    using sd l known(1) by (simp_all add: same_data_def)
  have ne: "uA \<noteq> nextUrl s" "a \<noteq> []" by (rule active_not_next [OF w playing])+
  have aid: "activeId s \<noteq> Some b" using playing tap(4) by (simp add: activeId_def)
  note tp = tap_plays [OF w buf known tap(1,2,3) aid]
  note sp = stop_Playing [OF playing ne(2)]
  have "map_of idx a \<noteq> None" using ka playing known(1) by (simp add: known_active_def)
  then have "a \<in> fst ` set idx0" by (simp add: i0 map_of_eq_None_iff)
  then obtain tu where tu: "map_of (thumbUrls s) a = Some tu"
    using key_has_thumb [OF l(3)] th by auto
  have wst: "wf ?st" by (rule wf_stop [OF w])
  have "thumbUrls ?st = thumbUrls s" by (simp add: sp)
  then have alive: "blobs ?st tu \<noteq> None" using thumb_alive [OF wst, of a tu] tu by simp
  have la: "live_anim (trace s) = {uA}" using w playing by (simp add: wf_def activeUrl_def)
  have 1: "activeState ?st = Idle" "trace ?st = Revoked uA # trace s" "blobs ?st uA = None"
    "srcOf ?st elA = Some tu" "elA \<notin> observed ?st"
    by (simp_all add: sp tu)
  have 2: "trace (snd (handleTap s t)) = Created AnimHandle (nextUrl s) # Revoked uA # trace s"
    "blobs (snd (handleTap s t)) uA = None" "blobs (snd (handleTap s t)) (nextUrl s) \<noteq> None"
    "live_anim (trace (snd (handleTap s t))) = {nextUrl s}"
    using tp 1 ne(1) la by simp_all
  have eq: "playAnimation b (ref t) (stopActiveAnimation s) = handleTap s t"
    by (rule tap_plays_eq [OF w tap(1,2,3) aid, symmetric])
  show ?thesis using eq tp 1 2 tu alive by blast
qed

lemma map_of_ex_index_b:
  "map_of ex_index ''b'' = Some \<lparr>width = 20, height = 20,
      thumb = Some \<lparr>offset = 12, length_r = 2\<rparr>, anim = Some \<lparr>offset = 14, length_r = 3\<rparr>\<rparr>"
  by (simp add: ex_index_def)

lemma map_of_ex_index_a:
  "map_of ex_index ''a'' = Some \<lparr>width = 10, height = 10,
      thumb = Some \<lparr>offset = 0, length_r = 4\<rparr>, anim = Some \<lparr>offset = 4, length_r = 8\<rparr>\<rparr>"
  by (simp add: ex_index_def)

theorem switch_releases_then_plays_witness:
  "load ex_parse ex_response new_engine = (None, ex_loaded)
   \<and> activeState (run ex_loaded [Tap img_a]) = Playing ''a'' 7 2
   \<and> dataset_id img_b = Some ''b''
   \<and> map_of ex_index ''b'' \<noteq> None
   \<and> activeState (stopActiveAnimation (run ex_loaded [Tap img_a])) = Idle
   \<and> activeState (snd (handleTap (run ex_loaded [Tap img_a]) img_b)) = Playing ''b'' 8 3
   \<and> trace (snd (handleTap (run ex_loaded [Tap img_a]) img_b))
       = [Created AnimHandle 3, Revoked 2, Created AnimHandle 2,
          Created ThumbHandle 1, Created ThumbHandle 0]
   \<and> blobs (snd (handleTap (run ex_loaded [Tap img_a]) img_b)) 2 = None
   \<and> live_anim (trace (snd (handleTap (run ex_loaded [Tap img_a]) img_b))) = {3}"
proof -
  have p: "activeState (run ex_loaded [Tap img_a]) = Playing ''a'' 7 2"
    by (simp add: run_tap_a ex_playing_def)
  have i: "indexMap (run ex_loaded [Tap img_a]) = Some ex_index"
    unfolding run_tap_a by (simp add: ex_playing_def ex_loaded_def)
  have n: "nextUrl (run ex_loaded [Tap img_a]) = 3" "trace (run ex_loaded [Tap img_a]) =
     [Created AnimHandle 2, Created ThumbHandle 1, Created ThumbHandle 0]"
    by (simp_all add: run_tap_a ex_playing_def)
  have t: "tagName img_b = ''IMG''" "dataset_id img_b = Some ''b''" "ref img_b = 8"
    by (simp_all add: img_b_def)
  have "''b'' \<noteq> ''a''" "''b'' \<noteq> []" by simp_all
  from switch_releases_then_plays [OF load_ex_blob p t(1,2) this(2,1) i map_of_ex_index_b]
  show ?thesis
    using load_ex_blob p t n map_of_ex_index_b by simp
qed

section \<open>Toggling\<close>

text \<open>
  Claim C8. On a loaded, idle engine, two taps in a row on the image of a known id \<open>x\<close>
  (with an \<open>anim\<close> range): the first tap plays \<open>x\<close> under a new animation URL, the second
  stops it. Afterwards the engine is idle, the element shows the thumbnail URL cached
  for \<open>x\<close> (which is alive), the animation URL of the first tap has been revoked and the
  element is no longer observed.
\<close>

theorem double_tap_returns_to_idle:
  fixes evs :: "event list"
  assumes loaded: "load parse fr new_engine = (None, s0)"
  defines "s \<equiv> run s0 evs"
  assumes idle: "activeState s = Idle"
    and tap: "tagName t = ''IMG''" "dataset_id t = Some x" "x \<noteq> []"
    and known: "indexMap s = Some idx" "map_of idx x = Some m" "anim m = Some r"
  defines "s1 \<equiv> snd (handleTap s t)"
  defines "s2 \<equiv> snd (handleTap s1 t)"
  shows "activeState s1 = Playing x (ref t) (nextUrl s)
     \<and> blobs s1 (nextUrl s) \<noteq> None
     \<and> srcOf s1 (ref t) = Some (nextUrl s)
     \<and> activeState s2 = Idle
     \<and> (\<exists>th. map_of (thumbUrls s) x = Some th \<and> srcOf s2 (ref t) = Some th
              \<and> blobs s2 th \<noteq> None)
     \<and> blobs s2 (nextUrl s) = None
     \<and> trace s2 = Revoked (nextUrl s) # Created AnimHandle (nextUrl s) # trace s
     \<and> ref t \<notin> observed s2"
proof -
  have w: "wf s" and sd: "same_data s0 s"
    unfolding s_def by (rule loaded_run [OF loaded])+
  from loaded obtain body idx0 where l: "buffer s0 = Some body" "indexMap s0 = Some idx0"
    "fst ` set idx0 \<subseteq> fst ` set (thumbUrls s0)"
    by (rule loaded_start)
  have buf: "buffer s = Some body" and i0: "idx0 = idx" and th: "thumbUrls s = thumbUrls s0"
    using sd l known(1) by (simp_all add: same_data_def)
  have aid: "activeId s \<noteq> Some x" using idle by (simp add: activeId_def)
  have st: "stopActiveAnimation s = s" by (rule stop_Idle [OF idle])
  note tp = tap_plays [OF w buf known tap aid, folded s1_def, unfolded st]
  have p1: "activeState s1 = Playing x (ref t) (nextUrl s)" using tp by simp
  have w1: "wf s1" unfolding s1_def by (rule wf_handleTap [OF w])
  have "handleTap s1 t = (None, stopActiveAnimation s1)"
    using handleTap_wf [OF w1 tap] p1 by (simp add: activeId_def)
  then have s2: "s2 = stopActiveAnimation s1" by (simp add: s2_def)
  note sp = stop_Playing [OF p1 tap(3), folded s2]
  have "(x, m) \<in> set idx" using known(2) by (rule map_of_SomeD)
  then have "x \<in> fst ` set idx0" using i0 by force
  then obtain tu where tu: "map_of (thumbUrls s) x = Some tu"
    using key_has_thumb [OF l(3)] th by auto
  have w2: "wf s2" unfolding s2 by (rule wf_stop [OF w1])
  have t2: "thumbUrls s2 = thumbUrls s" using tp by (simp add: sp)
  have alive: "blobs s2 tu \<noteq> None" using thumb_alive [OF w2, of x tu] tu t2 by simp
  have 1: "blobs s1 (nextUrl s) \<noteq> None" "srcOf s1 (ref t) = Some (nextUrl s)"
    using tp by simp_all
  have 2: "activeState s2 = Idle" "srcOf s2 (ref t) = Some tu" "blobs s2 (nextUrl s) = None"
    "trace s2 = Revoked (nextUrl s) # Created AnimHandle (nextUrl s) # trace s"
    "ref t \<notin> observed s2"
    using tp tu by (simp_all add: sp)
  show ?thesis using p1 1 2 tu alive by blast
qed

theorem double_tap_returns_to_idle_witness:
  "load ex_parse ex_response new_engine = (None, ex_loaded)
   \<and> activeState (run ex_loaded []) = Idle
   \<and> dataset_id img_a = Some ''a''
   \<and> map_of ex_index ''a'' \<noteq> None
   \<and> activeState (snd (handleTap (run ex_loaded []) img_a)) = Playing ''a'' 7 2
   \<and> activeState (snd (handleTap (snd (handleTap (run ex_loaded []) img_a)) img_a)) = Idle
   \<and> srcOf (snd (handleTap (snd (handleTap (run ex_loaded []) img_a)) img_a)) 7 = Some 0
   \<and> blobs (snd (handleTap (snd (handleTap (run ex_loaded []) img_a)) img_a)) 2 = None
   \<and> trace (snd (handleTap (snd (handleTap (run ex_loaded []) img_a)) img_a))
       = [Revoked 2, Created AnimHandle 2, Created ThumbHandle 1, Created ThumbHandle 0]"
proof -
  have r: "run ex_loaded [] = ex_loaded" by (simp add: run_def)
  have f: "activeState ex_loaded = Idle" "indexMap ex_loaded = Some ex_index"
    "nextUrl ex_loaded = 2" "map_of (thumbUrls ex_loaded) ''a'' = Some 0"
    "trace ex_loaded = [Created ThumbHandle 1, Created ThumbHandle 0]"
    by (simp_all add: ex_loaded_def)
  have t: "tagName img_a = ''IMG''" "dataset_id img_a = Some ''a''" "ref img_a = 7"
    by (simp_all add: img_a_def)
  have ne: "''a'' \<noteq> []" by simp
  from double_tap_returns_to_idle [OF load_ex_blob, of "[]", unfolded r,
      OF f(1) t(1,2) ne f(2) map_of_ex_index_a]
  show ?thesis
    using load_ex_blob r f t map_of_ex_index_a by simp
qed

section \<open>What the handles hold\<close>

text \<open>
  Claim C9. After a successful \<open>load\<close> of a blob the payload base is 4 plus the number
  read from the header, and the buffer is the blob. For every key of the index whose
  ranges have non-negative offset and length: the thumbnail URL cached for it holds the
  bytes of the blob from \<open>payloadBase + thumb.offset\<close> up to
  \<open>payloadBase + thumb.offset + thumb.length\<close> (the index listing each key once), and a
  tap that starts its animation, at any later moment, creates a URL that holds the bytes
  from \<open>payloadBase + anim.offset\<close> up to \<open>payloadBase + anim.offset + anim.length\<close>.
\<close>

theorem payload_base_and_byte_ranges:
  fixes evs :: "event list"
  assumes loaded: "load parse (Response okf status body) new_engine = (None, s0)"
  defines "s \<equiv> run s0 evs"
  shows "(\<exists>L. getUint32 body = Inr L \<and> payloadStart s0 = 4 + int L)
     \<and> buffer s0 = Some body
     \<and> (\<forall>idx i m r.
           indexMap s0 = Some idx \<and> distinct (map fst idx) \<and> map_of idx i = Some m
           \<and> thumb m = Some r \<and> 0 \<le> offset r \<and> 0 \<le> length_r r
           \<longrightarrow> (\<exists>u. map_of (thumbUrls s0) i = Some u
                  \<and> blobs s0 u = Some (byteRange body (payloadStart s0 + offset r)
                                         (payloadStart s0 + offset r + length_r r))))
     \<and> (\<forall>idx i m r t.
           indexMap s0 = Some idx \<and> map_of idx i = Some m
           \<and> anim m = Some r \<and> 0 \<le> offset r \<and> 0 \<le> length_r r
           \<and> tagName t = ''IMG'' \<and> dataset_id t = Some i \<and> i \<noteq> [] \<and> activeId s \<noteq> Some i
           \<longrightarrow> activeState (snd (handleTap s t)) = Playing i (ref t) (nextUrl s)
               \<and> blobs (snd (handleTap s t)) (nextUrl s)
                   = Some (byteRange body (payloadStart s0 + offset r)
                                     (payloadStart s0 + offset r + length_r r)))"
proof -
  from loaded obtain status' body' L idx0 where
    r: "Response okf status body = Response True status' body'"
    and l': "getUint32 body' = Inr L"
    "buffer s0 = Some body'" "indexMap s0 = Some idx0" "payloadStart s0 = 4 + int L"
    "thumbLoop idx0 (new_engine\<lparr>buffer := Some body', indexMap := Some idx0,
        payloadStart := 4 + int L\<rparr>) = (None, s0)"
    by (rule loaded_start)
  have bb: "body' = body" using r by simp
  note l = l' [unfolded bb]
  let ?s1 = "new_engine\<lparr>buffer := Some body, indexMap := Some idx0, payloadStart := 4 + int L\<rparr>"
  have w: "wf s" and sd: "same_data s0 s"
    unfolding s_def by (rule loaded_run [OF loaded])+
  have A: "\<exists>L. getUint32 body = Inr L \<and> payloadStart s0 = 4 + int L"
    using l by blast
  have B: "\<exists>u. map_of (thumbUrls s0) i = Some u
                  \<and> blobs s0 u = Some (byteRange body (payloadStart s0 + offset r)
                                         (payloadStart s0 + offset r + length_r r))"
    if h: "indexMap s0 = Some idx" "distinct (map fst idx)" "map_of idx i = Some m"
      "thumb m = Some r" "0 \<le> offset r" "0 \<le> length_r r" for idx i m r
  proof -
    have i0: "idx0 = idx" using l(3) h(1) by simp
    have mem: "(i, m) \<in> set idx0" using h(3) i0 by (auto dest: map_of_SomeD)
    have d: "distinct (map fst idx0)" using h(2) i0 by simp
    from thumbLoop_result [OF l(5) d] mem
    obtain r' u where "thumb m = Some r'" "map_of (thumbUrls s0) i = Some u"
      "blobs s0 u = Some (slice body (4 + int L + offset r') (4 + int L + offset r' + length_r r'))"
      by fastforce
    then show ?thesis
      using h(4,5,6) l(4) by (simp add: slice_byteRange)
  qed
  have C: "activeState (snd (handleTap s t)) = Playing i (ref t) (nextUrl s)
               \<and> blobs (snd (handleTap s t)) (nextUrl s)
                   = Some (byteRange body (payloadStart s0 + offset r)
                                     (payloadStart s0 + offset r + length_r r))"
    if h: "indexMap s0 = Some idx" "map_of idx i = Some m"
      "anim m = Some r" "0 \<le> offset r" "0 \<le> length_r r"
      "tagName t = ''IMG''" "dataset_id t = Some i" "i \<noteq> []" "activeId s \<noteq> Some i"
    for idx i m r t
  proof -
    have buf: "buffer s = Some body" and ix: "indexMap s = Some idx"
      and ps: "payloadStart s = payloadStart s0"
      using sd l(2) h(1) by (simp_all add: same_data_def)
    note tp = tap_plays [OF w buf ix h(2,3) h(6,7,8,9)]
    show ?thesis
      using tp h(4,5) l(4) by (simp add: ps slice_byteRange)
  qed
  show ?thesis using A l(2) B C by blast
qed

lemma byteRange_ex_anim_a: "byteRange ex_blob 195 203 = [5, 6, 7, 8, 9, 10, 11, 12]"
  using slice_ex_blob [of 4 8] slice_byteRange [of 195 203 ex_blob]
  by (simp add: ex_payload_def)

lemma byteRange_ex_thumb_a: "byteRange ex_blob 191 195 = [1, 2, 3, 4]"
  using slice_ex_blob [of 0 4] slice_byteRange [of 191 195 ex_blob]
  by (simp add: ex_payload_def)

theorem payload_base_and_byte_ranges_witness:
  "load ex_parse (Response True 200 ex_blob) new_engine = (None, ex_loaded)
   \<and> getUint32 ex_blob = Inr 187 \<and> payloadStart ex_loaded = 4 + 187
   \<and> buffer ex_loaded = Some ex_blob
   \<and> map_of (thumbUrls ex_loaded) ''a'' = Some 0
   \<and> blobs ex_loaded 0 = Some (byteRange ex_blob 191 195)
   \<and> activeState (snd (handleTap (run ex_loaded []) img_a)) = Playing ''a'' 7 2
   \<and> blobs (snd (handleTap (run ex_loaded []) img_a)) 2 = Some (byteRange ex_blob 195 203)
   \<and> byteRange ex_blob 195 203 = [5, 6, 7, 8, 9, 10, 11, 12]
   \<and> byteRange ex_blob 191 195 = [1, 2, 3, 4]"
proof -
  have lo: "load ex_parse (Response True 200 ex_blob) new_engine = (None, ex_loaded)"
    using load_ex_blob by (simp add: ex_response_def)
  have f: "indexMap ex_loaded = Some ex_index" "payloadStart ex_loaded = 191"
    "map_of (thumbUrls ex_loaded) ''a'' = Some 0" "nextUrl (run ex_loaded []) = 2"
    "activeId (run ex_loaded []) \<noteq> Some ''a''"
    by (simp_all add: ex_loaded_def run_def activeId_def)
  have d: "distinct (map fst ex_index)" by (simp add: ex_index_def)
  have t: "tagName img_a = ''IMG''" "dataset_id img_a = Some ''a''" "ref img_a = 7"
    by (simp_all add: img_a_def)
  note th = payload_base_and_byte_ranges [OF lo, of "[]"]
  have 1: "\<exists>u. map_of (thumbUrls ex_loaded) ''a'' = Some u
       \<and> blobs ex_loaded u = Some (byteRange ex_blob 191 195)"
    using th f(1,2) d map_of_ex_index_a by fastforce
  have 2: "activeState (snd (handleTap (run ex_loaded []) img_a)) = Playing ''a'' 7 2
     \<and> blobs (snd (handleTap (run ex_loaded []) img_a)) 2 = Some (byteRange ex_blob 195 203)"
    using th f d t map_of_ex_index_a by fastforce
  show ?thesis
    using th 1 2 lo f getUint32_ex_blob byteRange_ex_anim_a byteRange_ex_thumb_a by auto
qed

section \<open>Thumbnails of a malformed index\<close>



lemma thumbLoop_takeWhile:
  assumes "buffer s = Some buf"
  shows "fst (thumbLoop (takeWhile (\<lambda>p. thumb (snd p) \<noteq> None) idx) s) = None
     \<and> thumbLoop idx s =
         (if takeWhile (\<lambda>p. thumb (snd p) \<noteq> None) idx = idx then None else Some TypeError,
          snd (thumbLoop (takeWhile (\<lambda>p. thumb (snd p) \<noteq> None) idx) s))"
  using assms
proof (induction idx arbitrary: s)
  case Nil
  show ?case by simp
next
  case (Cons p idx)
  obtain i m where p: "p = (i, m)" by (cases p)
  show ?case
  proof (cases "thumb m")
    case None
    then have "thumbEntry i m s = (Some TypeError, s)" by (simp add: thumbEntry_fail)
    then show ?thesis using None by (simp add: p)
  next
    case (Some r)
    obtain s1 where t: "thumbEntry i m s = (None, s1)"
      using thumbEntry_ok [OF Cons.prems Some] by simp
    have "buffer s1 = Some buf"
      using thumbEntry_frame [of i m s] t Cons.prems by simp
    from Cons.IH [OF this] show ?thesis
      using Some t by (simp add: p)
  qed
qed




lemma getUint32_bad_blob: "getUint32 bad_blob = Inr 155"
  by (simp add: getUint32_def bad_blob_def)

lemma uint8View_bad_blob: "uint8View bad_blob 4 155 = Inr bad_json"
  by (simp add: uint8View_def bad_blob_def len_bad_json ex_payload_def)

lemma loadBody_bad_blob:
  "loadBody ex_parse (Response True 200 bad_blob) new_engine = initThumbnails bad_state"
  by (simp add: loadBody_def getUint32_bad_blob uint8View_bad_blob ex_parse_def bad_json_neq
      bad_state_def)

lemma initThumbnails_bad_state: "initThumbnails bad_state = (Some TypeError, bad_state)"
  by (simp add: initThumbnails_def bad_state_def bad_index_def thumbEntry_def new_engine_def)


text \<open>An index with an entry that lacks \<open>thumb\<close> makes \<open>load\<close> fail with the
  \<open>TypeError\<close> of \<open>initThumbnails\<close>, whatever the engine's state.\<close>

lemma load_fails_on_missing_thumb:
  assumes "getUint32 body = Inr L" "4 + L \<le> length body"
    "parse (take L (drop 4 body)) = JsonObject idx" "\<exists>p \<in> set idx. thumb (snd p) = None"
  shows "fst (load parse (Response True status body) s) = Some TypeError"
proof -
  let ?s1 = "s\<lparr>buffer := Some body, indexMap := Some idx, payloadStart := 4 + int L\<rparr>"
  have eq: "loadBody parse (Response True status body) s = thumbLoop idx ?s1"
    using assms(1,2,3) by (simp add: loadBody_def Let_def uint8View_def initThumbnails_def)
  have b: "buffer ?s1 = Some body" by simp
  have "takeWhile (\<lambda>p. thumb (snd p) \<noteq> None) idx \<noteq> idx"
    using assms(4) by (auto simp: takeWhile_eq_all_conv)
  then have "fst (thumbLoop idx ?s1) = Some TypeError"
    using thumbLoop_takeWhile [OF b, of idx] by (cases "thumbLoop idx ?s1") auto
  then show ?thesis
    by (cases "thumbLoop idx ?s1") (simp add: load_def eq)
qed

section \<open>Leaving the viewport\<close>

text \<open>
  Claim C3, as amended. The observer callback reclaims on entries that report the element
  as not intersecting the viewport at all (\<open>isIntersecting\<close> false, the observer being
  created with threshold 0): if the entry's target is the playing element,
  \<open>stopActiveAnimation\<close> runs, which revokes the animation URL, stops observing the
  element and leaves the engine idle. An entry that still intersects, however small its
  intersection ratio, or whose target is not the playing element, changes nothing.
\<close>

theorem reclaim_when_not_intersecting:
  fixes evs :: "event list"
  assumes loaded: "load parse fr new_engine = (None, s0)"
  defines "s \<equiv> run s0 evs"
  assumes playing: "activeState s = Playing i el u"
  shows "observerCallback s [e]
           = (if \<not> isIntersecting e \<and> target e = el then stopActiveAnimation s else s)
     \<and> activeState (stopActiveAnimation s) = Idle
     \<and> blobs (stopActiveAnimation s) u = None
     \<and> trace (stopActiveAnimation s) = Revoked u # trace s
     \<and> el \<notin> observed (stopActiveAnimation s)"
proof -
  have w: "wf s" unfolding s_def by (rule loaded_run [OF loaded])
  have ne: "i \<noteq> []" by (rule active_not_next [OF w playing])
  note sp = stop_Playing [OF playing ne]
  have "observerCallback s [e]
           = (if \<not> isIntersecting e \<and> target e = el then stopActiveAnimation s else s)"
    using playing by (auto simp: observerCallback_def observerEntry_def activeEl_def)
  then show ?thesis by (simp add: sp)
qed

theorem reclaim_when_not_intersecting_witness:
  "load ex_parse ex_response new_engine = (None, ex_loaded)
   \<and> activeState (run ex_loaded [Tap img_a]) = Playing ''a'' 7 2
   \<and> target out_of_view = 7 \<and> \<not> isIntersecting out_of_view
   \<and> observerCallback (run ex_loaded [Tap img_a]) [out_of_view]
       = stopActiveAnimation (run ex_loaded [Tap img_a])
   \<and> activeState (stopActiveAnimation (run ex_loaded [Tap img_a])) = Idle
   \<and> blobs (stopActiveAnimation (run ex_loaded [Tap img_a])) 2 = None"
proof -
  have p: "activeState (run ex_loaded [Tap img_a]) = Playing ''a'' 7 2"
    by (simp add: run_tap_a ex_playing_def)
  have o: "target out_of_view = 7" "\<not> isIntersecting out_of_view"
    by (simp_all add: out_of_view_def)
  show ?thesis
    using reclaim_when_not_intersecting [OF load_ex_blob p, of out_of_view] load_ex_blob p o
    by simp
qed

text \<open>
  Claim C3 as stated, that any intersection less than full triggers reclamation, fails:
  while \<open>a\<close> is playing, an entry for its element with half of it inside the viewport
  (\<open>isIntersecting\<close> true, ratio 1/2) leaves the playback as it is.
\<close>

theorem partial_intersection_keeps_playing:
  "load ex_parse ex_response new_engine = (None, ex_loaded)
   \<and> activeState (run ex_loaded [Tap img_a]) = Playing ''a'' 7 2
   \<and> target half_visible = 7 \<and> intersectionRatio half_visible < 1
   \<and> observerCallback (run ex_loaded [Tap img_a]) [half_visible] = run ex_loaded [Tap img_a]
   \<and> activeState (run ex_loaded [Tap img_a, Visibility [half_visible]]) = Playing ''a'' 7 2
   \<and> blobs (run ex_loaded [Tap img_a, Visibility [half_visible]]) 2
       = Some [5, 6, 7, 8, 9, 10, 11, 12]"
proof -
  have o: "observerCallback ex_playing [half_visible] = ex_playing"
    by (simp add: observerCallback_def observerEntry_def half_visible_def)
  have r: "run ex_loaded [Tap img_a, Visibility [half_visible]] = ex_playing"
    by (simp add: run_def step_def tap_a_ex_loaded o)
  show ?thesis
    unfolding r run_tap_a o
    by (simp add: load_ex_blob half_visible_def ex_playing_def)
qed

section \<open>Disposal\<close>

lemma wf_perform: "wf s \<Longrightarrow> wf (perform parse s op)"
  by (cases op) (simp_all add: perform_def wf_load wf_step)

lemma wf_runOps: "wf s \<Longrightarrow> wf (runOps parse s ops)"
  unfolding runOps_def by (induction ops arbitrary: s) (simp_all add: wf_perform)

lemma live_stop:
  assumes "wf s"
  shows "live (trace (stopActiveAnimation s)) = live (trace s) - set_option (activeUrl s)"
proof (cases "activeState s")
  case Idle
  then show ?thesis by (simp add: stop_Idle activeUrl_def)
next
  case (Playing i el u)
  from assms have "i \<noteq> []" by (simp add: wf_def activeId_def Playing)
  then show ?thesis by (simp add: stop_Playing [OF Playing] activeUrl_def Playing)
qed

lemma dispose_exact:
  assumes "wf s"
  shows "live (trace (dispose s))
           = live (trace s) - snd ` set (thumbUrls s) - set_option (activeUrl s)
     \<and> dom (blobs (dispose s)) = live (trace (dispose s))
     \<and> revoked_once (trace (dispose s))
     \<and> thumbUrls (dispose s) = [] \<and> buffer (dispose s) = None \<and> indexMap (dispose s) = None
     \<and> activeState (dispose s) = Idle"
proof -
  let ?s1 = "stopActiveAnimation s"
  let ?s3 = "?s1\<lparr>listening := False, observed := {}\<rparr>"
  let ?us = "map snd (thumbUrls ?s3)"
  let ?s4 = "foldl (\<lambda>st u. revokeObjectURL u st) ?s3 ?us"
  have w1: "wf ?s1" by (rule wf_stop [OF assms])
  have i1: "activeState ?s1 = Idle" by (rule activeState_stop [OF assms])
  have th: "thumbUrls ?s1 = thumbUrls s"
    using same_data_stop [of s] by (simp add: same_data_def)
  from w1 have d: "distinct ?us" and sub: "set ?us \<subseteq> live (trace ?s3)"
    and r: "revoked_once (trace ?s3)" and b: "dom (blobs ?s3) = live (trace ?s3)"
    by (simp_all add: wf_def)
  note ra = revoke_all [OF d sub r b]
  have us: "set ?us = snd ` set (thumbUrls s)" by (simp add: th)
  have l4: "live (trace ?s4)
      = live (trace s) - snd ` set (thumbUrls s) - set_option (activeUrl s)"
  proof -
    have "live (trace ?s4) = live (trace ?s1) - set ?us" using ra by simp
    also have "\<dots> = (live (trace s) - set_option (activeUrl s)) - snd ` set (thumbUrls s)"
      by (simp only: live_stop [OF assms] us)
    finally show ?thesis by (simp add: Diff_eq Int_ac)
  qed
  have eq: "dispose s = ?s4\<lparr>thumbUrls := [], buffer := None, indexMap := None\<rparr>"
    by (simp add: dispose_def Let_def)
  show ?thesis
    using l4 ra revoke_all_frame [of ?s3 ?us] i1
    by (simp add: eq)
qed

text \<open>
  Claim C5 is broken by the code. After any sequence of loads, taps, stops and
  visibility events, \<open>dispose\<close> revokes the URLs held in the thumbnail cache and the URL
  of the playing animation, clears the cache, the buffer and the index, and revokes
  nothing else. \<open>initThumbnails\<close> overwrites a cache entry without revoking the URL it
  held, so a thumbnail URL created by an earlier \<open>load\<close> for an id that a later \<open>load\<close>
  materializes again is alive before \<open>dispose\<close>, held neither by the cache nor by
  \<open>activeState\<close>, and therefore still alive afterwards.
\<close>

theorem dispose_releases_cache_and_active_only:
  fixes parse :: "byte list \<Rightarrow> parsed" and ops :: "operation list"
  defines "s \<equiv> runOps parse new_engine ops"
  shows "dom (blobs (dispose s))
           = dom (blobs s) - snd ` set (thumbUrls s) - set_option (activeUrl s)
     \<and> live (trace (dispose s)) = dom (blobs (dispose s))
     \<and> thumbUrls (dispose s) = [] \<and> buffer (dispose s) = None \<and> indexMap (dispose s) = None
     \<and> activeState (dispose s) = Idle"
proof -
  have w: "wf s" unfolding s_def by (rule wf_runOps [OF wf_new_engine])
  then have "dom (blobs s) = live (trace s)" by (simp add: wf_def)
  then show ?thesis using dispose_exact [OF w] by simp
qed

lemma len_partial_json: "length partial_json = 154"
  by (simp add: partial_json_def partial_json_text_def)

lemma partial_json_neq: "ex_json \<noteq> partial_json"
  using len_ex_json len_partial_json by auto

lemma getUint32_partial_blob: "getUint32 partial_blob = Inr 154"
  by (simp add: getUint32_def partial_blob_def)

lemma uint8View_partial_blob: "uint8View partial_blob 4 154 = Inr partial_json"
  by (simp add: uint8View_def partial_blob_def len_partial_json ex_payload_def)

lemma slice_partial_blob: "slice partial_blob 158 162 = [1, 2, 3, 4]"
proof -
  have "drop 158 partial_blob = ex_payload"
    by (simp add: partial_blob_def len_partial_json)
  moreover have "length partial_blob = 175"
    by (simp add: partial_blob_def len_partial_json ex_payload_def)
  ultimately show ?thesis
    by (simp add: slice_def clampIndex_def Let_def ex_payload_def)
qed

text \<open>The first entry gets its thumbnail URL, the second has no \<open>thumb\<close>: \<open>load\<close> fails.\<close>

lemma load_partial_blob:
  "load retry_parse (Response True 200 partial_blob) new_engine = (Some TypeError, partly_loaded)"
  using slice_partial_blob
  by (simp add: load_def loadBody_def getUint32_partial_blob uint8View_partial_blob
      retry_parse_def new_engine_def initThumbnails_def partial_index_def thumbEntry_def
      createObjectURL_def partly_loaded_def)

text \<open>The caller tries again with the well-formed blob: \<open>load\<close> succeeds and the cache
  entry of \<open>a\<close> now holds URL 1.\<close>

lemma retry_ex_blob:
  "load retry_parse ex_response partly_loaded =
     (None, partly_loaded\<lparr>buffer := Some ex_blob, indexMap := Some ex_index,
        payloadStart := 191, thumbUrls := [(''a'', 1), (''b'', 2)], nextUrl := 3,
        blobs := [0 \<mapsto> [1, 2, 3, 4], 1 \<mapsto> [1, 2, 3, 4], 2 \<mapsto> [13, 14]],
        trace := [Created ThumbHandle 2, Created ThumbHandle 1, Created ThumbHandle 0]\<rparr>)"
  using slice_ex_blob [of 0 4] slice_ex_blob [of 12 2]
  apply (simp add: load_def loadBody_def ex_response_def getUint32_ex_blob uint8View_ex_blob
      retry_parse_def partial_json_neq ex_parse_def initThumbnails_def ex_index_def
      thumbEntry_def createObjectURL_def partly_loaded_def)
  apply (simp add: ex_payload_def numeral_2_eq_2)
  done

lemma runOps_retry:
  "runOps retry_parse new_engine [LoadOp (Response True 200 partial_blob), LoadOp ex_response]
     = partly_loaded\<lparr>buffer := Some ex_blob, indexMap := Some ex_index,
        payloadStart := 191, thumbUrls := [(''a'', 1), (''b'', 2)], nextUrl := 3,
        blobs := [0 \<mapsto> [1, 2, 3, 4], 1 \<mapsto> [1, 2, 3, 4], 2 \<mapsto> [13, 14]],
        trace := [Created ThumbHandle 2, Created ThumbHandle 1, Created ThumbHandle 0]\<rparr>"
  by (simp add: runOps_def perform_def load_partial_blob retry_ex_blob)

theorem dispose_releases_cache_and_active_only_witness:
  "fst (load retry_parse (Response True 200 partial_blob) new_engine) = Some TypeError
   \<and> fst (load retry_parse ex_response
          (snd (load retry_parse (Response True 200 partial_blob) new_engine))) = None
   \<and> dom (blobs (dispose (runOps retry_parse new_engine
          [LoadOp (Response True 200 partial_blob), LoadOp ex_response]))) = {0}
   \<and> live (trace (dispose (runOps retry_parse new_engine
          [LoadOp (Response True 200 partial_blob), LoadOp ex_response]))) = {0}
   \<and> thumbUrls (dispose (runOps retry_parse new_engine
          [LoadOp (Response True 200 partial_blob), LoadOp ex_response])) = []"
proof -
  let ?s = "runOps retry_parse new_engine
          [LoadOp (Response True 200 partial_blob), LoadOp ex_response]"
  have f: "dom (blobs ?s) = {0, 1, 2}" "snd ` set (thumbUrls ?s) = {1, 2}"
    "activeUrl ?s = None"
    unfolding runOps_retry by (auto simp: partly_loaded_def activeUrl_def)
  have "{0, 1, 2} - {1, 2} = {0::nat}" by auto
  then show ?thesis
    using dispose_releases_cache_and_active_only
            [of retry_parse "[LoadOp (Response True 200 partial_blob), LoadOp ex_response]"] f
    by (simp add: load_partial_blob retry_ex_blob)
qed

text \<open>The leaked URL still holds the thumbnail bytes and was never revoked.\<close>

lemma retry_leaks_thumbnail:
  "blobs (dispose (runOps retry_parse new_engine
       [LoadOp (Response True 200 partial_blob), LoadOp ex_response])) 0 = Some [1, 2, 3, 4]
   \<and> count_list (trace (dispose (runOps retry_parse new_engine
       [LoadOp (Response True 200 partial_blob), LoadOp ex_response]))) (Revoked 0) = 0"
  unfolding runOps_retry
  by (simp add: dispose_def stopActiveAnimation_def revokeObjectURL_def Let_def
      partly_loaded_def)

text \<open>With a single \<open>load\<close> on a new engine, whether it succeeds or fails (the parsed index
  listing each key once), nothing is left alive: the store is empty and every URL that
  was created has been revoked exactly once.\<close>

lemma single_load_releases_everything:
  fixes evs :: "event list"
  assumes "distinct_keys (snd (load parse fr new_engine))"
  defines "s' \<equiv> dispose (run (snd (load parse fr new_engine)) evs)"
  shows "blobs s' = Map.empty \<and> live (trace s') = {}
     \<and> (\<forall>k u. Created k u \<in> set (trace s') \<longrightarrow> count_list (trace s') (Revoked u) = 1)
     \<and> thumbUrls s' = [] \<and> buffer s' = None \<and> indexMap s' = None
     \<and> activeState s' = Idle"
proof -
  let ?s0 = "snd (load parse fr new_engine)"
  have t0: "tight ?s0"
    by (rule tight_load [OF tight_new_engine _ assms(1)]) (simp add: new_engine_def)
  have w0: "wf ?s0" by (rule wf_load [OF wf_new_engine])
  have t: "tight (run ?s0 evs)" by (rule tight_run [OF w0 t0])
  have w: "wf (run ?s0 evs)" by (rule wf_run [OF w0])
  note dc = dispose_clean [OF w t, folded s'_def]
  have "count_list (trace s') (Revoked u) = 1" if "Created k u \<in> set (trace s')" for k u
  proof -
    have "created (trace s') u" using that created_iff by blast
    then show ?thesis using revoked_once_dead [of "trace s'" u] dc by simp
  qed
  then show ?thesis using dc by blast
qed

section \<open>Taps on an unknown id\<close>

text \<open>On an idle engine a tap on an id that is no key of the index leaves the playback
  state alone: the warning is logged, or, for a name inherited from
  \<open>Object.prototype\<close>, a \<open>TypeError\<close> is thrown and nothing is logged.\<close>

lemma tap_unknown_id_idle:
  assumes "activeState s = Idle" "indexMap s = Some idx" "map_of idx i = None"
    "tagName t = ''IMG''" "dataset_id t = Some i" "i \<noteq> []"
  shows "handleTap s t =
           (if i \<in> set objectPrototypeNames then (Some TypeError, s)
            else (None, s\<lparr>console := WarnAnimMissing i # console s\<rparr>))"
  using assms
  by (simp add: handleTap_def truthy_def activeId_def Let_def play_unknown)

text \<open>
  Claim C2 is broken by the code on a playing engine. While some id is playing, a tap on
  an image whose id is no key of the index first stops the playback (\<open>handleTap\<close> calls
  \<open>stopActiveAnimation\<close> before \<open>playAnimation\<close> looks the id up): the engine ends
  idle and the animation URL that was playing is revoked. The warning is logged unless
  the id is a name inherited from \<open>Object.prototype\<close>; for such a name the lookup
  finds the inherited value, \<open>playAnimation\<close> throws a \<open>TypeError\<close> and nothing is
  logged.
\<close>

theorem tap_unknown_id_while_playing:
  fixes evs :: "event list"
  assumes loaded: "load parse fr new_engine = (None, s0)"
  defines "s \<equiv> run s0 evs"
  assumes playing: "activeState s = Playing a el u"
    and tap: "tagName t = ''IMG''" "dataset_id t = Some i" "i \<noteq> []"
    and unknown: "indexMap s = Some idx" "map_of idx i = None"
  shows "fst (handleTap s t) = (if i \<in> set objectPrototypeNames then Some TypeError else None)
     \<and> console (snd (handleTap s t))
         = (if i \<in> set objectPrototypeNames then console s
            else WarnAnimMissing i # console s)
     \<and> activeState (snd (handleTap s t)) = Idle
     \<and> activeState (snd (handleTap s t)) \<noteq> activeState s
     \<and> blobs (snd (handleTap s t)) u = None
     \<and> trace (snd (handleTap s t)) = Revoked u # trace s"
proof -
  let ?st = "stopActiveAnimation s"
  have w: "wf s" and ka: "known_active s"
    unfolding s_def by (rule loaded_run [OF loaded])+
  have ne: "a \<noteq> []" by (rule active_not_next [OF w playing])
  have "map_of idx a \<noteq> None" using ka playing unknown(1) by (simp add: known_active_def)
  then have "a \<noteq> i" using unknown(2) by auto
  then have aid: "activeId s \<noteq> Some i" using playing by (simp add: activeId_def)
  have ix: "indexMap ?st = Some idx"
    using same_data_stop [of s] unknown(1) by (simp add: same_data_def)
  have h: "handleTap s t =
      (if i \<in> set objectPrototypeNames then (Some TypeError, ?st)
       else (None, ?st\<lparr>console := WarnAnimMissing i # console ?st\<rparr>))"
    using tap_plays_eq [OF w tap aid] play_unknown [OF ix unknown(2)] by simp
  show ?thesis
    using playing by (simp add: h stop_Playing [OF playing ne])
qed

theorem tap_unknown_id_while_playing_witness:
  "load ex_parse ex_response new_engine = (None, ex_loaded)
   \<and> activeState (run ex_loaded [Tap img_a]) = Playing ''a'' 7 2
   \<and> dataset_id img_zz = Some ''zz'' \<and> map_of ex_index ''zz'' = None
   \<and> fst (handleTap (run ex_loaded [Tap img_a]) img_zz) = None
   \<and> activeState (snd (handleTap (run ex_loaded [Tap img_a]) img_zz)) = Idle
   \<and> blobs (snd (handleTap (run ex_loaded [Tap img_a]) img_zz)) 2 = None
   \<and> trace (snd (handleTap (run ex_loaded [Tap img_a]) img_zz))
       = [Revoked 2, Created AnimHandle 2, Created ThumbHandle 1, Created ThumbHandle 0]
   \<and> console (snd (handleTap (run ex_loaded [Tap img_a]) img_zz)) = [WarnAnimMissing ''zz'']"
proof -
  have p: "activeState (run ex_loaded [Tap img_a]) = Playing ''a'' 7 2"
    "indexMap (run ex_loaded [Tap img_a]) = Some ex_index"
    "console (run ex_loaded [Tap img_a]) = []"
    "trace (run ex_loaded [Tap img_a])
       = [Created AnimHandle 2, Created ThumbHandle 1, Created ThumbHandle 0]"
    unfolding run_tap_a by (simp_all add: ex_playing_def ex_loaded_def)
  have t: "tagName img_zz = ''IMG''" "dataset_id img_zz = Some ''zz''"
    by (simp_all add: img_zz_def)
  have u: "map_of ex_index ''zz'' = None" by (simp add: ex_index_def)
  have ne: "''zz'' \<noteq> []" by simp
  have ni: "''zz'' \<notin> set objectPrototypeNames" by (simp add: objectPrototypeNames_def)
  show ?thesis
    using tap_unknown_id_while_playing [OF load_ex_blob p(1) t ne p(2) u]
      load_ex_blob p t u ni
    by simp
qed

text \<open>The same tap with the inherited name \<open>constructor\<close>: the playback is stopped, a
  \<open>TypeError\<close> is thrown and no warning is logged.\<close>

lemma tap_constructor_while_playing:
  "map_of ex_index ''constructor'' = None
   \<and> fst (handleTap (run ex_loaded [Tap img_a]) img_constructor) = Some TypeError
   \<and> activeState (snd (handleTap (run ex_loaded [Tap img_a]) img_constructor)) = Idle
   \<and> console (snd (handleTap (run ex_loaded [Tap img_a]) img_constructor)) = []"
  unfolding run_tap_a
  by (simp add: handleTap_def img_constructor_def truthy_def activeId_def Let_def
      stopActiveAnimation_def revokeObjectURL_def playAnimation_def getProp_def
      objectPrototypeNames_def ex_playing_def ex_loaded_def ex_index_def)

section \<open>Queries\<close>

lemma thumbLoop_error:
  assumes "buffer s = Some buf"
  shows "fst (thumbLoop idx s) = None \<or> fst (thumbLoop idx s) = Some TypeError"
  using thumbLoop_takeWhile [OF assms, of idx] by (cases "thumbLoop idx s") auto

lemma load_failed_early:
  assumes "fst (load parse fr new_engine) = Some e" "e \<noteq> TypeError"
  shows "indexMap (snd (load parse fr new_engine)) = None"
proof -
  obtain e1 s1 where lb: "loadBody parse fr new_engine = (e1, s1)"
    by (cases "loadBody parse fr new_engine")
  have e: "e1 = Some e" using assms(1) lb by (cases e1) (simp_all add: load_def)
  have ix: "indexMap (snd (load parse fr new_engine)) = indexMap s1"
    using lb by (cases e1) (simp_all add: load_def)
  have n: "indexMap new_engine = None" by (simp add: new_engine_def)
  show ?thesis
  proof (cases "\<exists>status body L idx. fr = Response True status body \<and> getUint32 body = Inr L
      \<and> length body \<ge> 4 + L \<and> parse (take L (drop 4 body)) = JsonObject idx")
    case False
    then have "indexMap s1 = None"
      using lb n
      by (auto simp: loadBody_def Let_def uint8View_def
          split: fetch_result.splits if_splits sum.splits parsed.splits)
    then show ?thesis using ix by simp
  next
    case True
    then obtain status body L idx where h: "fr = Response True status body"
      "getUint32 body = Inr L" "length body \<ge> 4 + L"
      "parse (take L (drop 4 body)) = JsonObject idx"
      by blast
    let ?s = "new_engine\<lparr>buffer := Some body, indexMap := Some idx, payloadStart := 4 + int L\<rparr>"
    have eq: "loadBody parse fr new_engine = thumbLoop idx ?s"
      using h by (simp add: loadBody_def Let_def uint8View_def initThumbnails_def)
    have b: "buffer ?s = Some body" by simp
    have "fst (thumbLoop idx ?s) = Some e" using e lb eq by simp
    then have False using thumbLoop_error [OF b, of idx] assms(2) by auto
    then show ?thesis ..
  qed
qed

text \<open>
  Claim C10, as amended. While the index map is unset, \<open>getAllIds\<close> returns the empty
  list and \<open>getItemData\<close> returns null for every id (after logging its warning); neither
  can throw, as the model gives them no exception to return. The index map is unset on a
  new engine, after \<open>dispose\<close>, and after a \<open>load\<close> on a new engine that failed before
  the index was stored (with any exception but the \<open>TypeError\<close> of
  \<open>initThumbnails\<close>).
\<close>

theorem queries_guard_unset_index:
  "(indexMap s = None \<longrightarrow>
      getAllIds s = []
      \<and> getItemData s i = (None, s\<lparr>console := WarnItemMissing i # console s\<rparr>))
   \<and> getAllIds new_engine = [] \<and> fst (getItemData new_engine i) = None
   \<and> getAllIds (dispose s0) = [] \<and> fst (getItemData (dispose s0) i) = None
   \<and> (fst (load parse fr new_engine) = Some e \<and> e \<noteq> TypeError \<longrightarrow>
         getAllIds (snd (load parse fr new_engine)) = []
         \<and> fst (getItemData (snd (load parse fr new_engine)) i) = None)"
proof -
  have g: "getAllIds s = [] \<and> getItemData s i = (None, s\<lparr>console := WarnItemMissing i # console s\<rparr>)"
    if "indexMap s = None" for s
    using that by (simp add: getAllIds_def getItemData_def)
  have l: "getAllIds (snd (load parse fr new_engine)) = []
         \<and> fst (getItemData (snd (load parse fr new_engine)) i) = None"
    if "fst (load parse fr new_engine) = Some e" "e \<noteq> TypeError"
    using g [OF load_failed_early [OF that]] by simp
  have n: "indexMap new_engine = None" by (simp add: new_engine_def)
  show ?thesis
    using g [of s] g [OF n] g [OF indexMap_dispose, of s0] l by simp
qed

lemma load_short_ex:
  "load ex_parse (Response True 200 short_blob) new_engine
     = (Some RangeError,
        new_engine\<lparr>buffer := Some short_blob, console := [ErrorLoadFailed RangeError]\<rparr>)"
proof -
  have "length short_blob < 4 + 187" by (simp add: short_blob_def)
  then show ?thesis
    by (simp add: load_def loadBody_def uint8View_def new_engine_def getUint32_short_blob)
qed

theorem queries_guard_unset_index_witness:
  "fst (load ex_parse (Response True 200 short_blob) new_engine) = Some RangeError
   \<and> indexMap (snd (load ex_parse (Response True 200 short_blob) new_engine)) = None
   \<and> getAllIds (snd (load ex_parse (Response True 200 short_blob) new_engine)) = []
   \<and> fst (getItemData (snd (load ex_parse (Response True 200 short_blob) new_engine)) ''a'')
       = None
   \<and> getAllIds (dispose ex_loaded) = []
   \<and> fst (getItemData (dispose ex_loaded) ''a'') = None"
proof -
  have n: "indexMap (snd (load ex_parse (Response True 200 short_blob) new_engine)) = None"
    "fst (load ex_parse (Response True 200 short_blob) new_engine) = Some RangeError"
    unfolding load_short_ex by (simp_all add: new_engine_def)
  show ?thesis
    using queries_guard_unset_index
            [of "snd (load ex_parse (Response True 200 short_blob) new_engine)" "''a''"
                ex_loaded ex_parse "Response True 200 short_blob" RangeError] n
    by simp
qed

lemma load_bad_blob:
  "load ex_parse (Response True 200 bad_blob) new_engine
     = (Some TypeError, bad_state\<lparr>console := [ErrorLoadFailed TypeError]\<rparr>)"
  by (simp add: load_def loadBody_bad_blob initThumbnails_bad_state)
     (simp add: bad_state_def new_engine_def)

text \<open>
  Claim C10 as stated, for every engine whose load has not succeeded, fails after a
  \<open>load\<close> that throws inside \<open>initThumbnails\<close>: the index was stored before, so
  \<open>getAllIds\<close> returns its ids and \<open>getItemData\<close> returns data for them.
\<close>

theorem failed_load_leaves_index_set:
  "fst (load ex_parse (Response True 200 bad_blob) new_engine) = Some TypeError
   \<and> getAllIds (snd (load ex_parse (Response True 200 bad_blob) new_engine)) = [''a'', ''b'']
   \<and> fst (getItemData (snd (load ex_parse (Response True 200 bad_blob) new_engine)) ''b'')
       = Some \<lparr>item_url = None, item_width = Some 20, item_height = Some 20\<rparr>"
  unfolding load_bad_blob
  by (simp add: getAllIds_def getItemData_def getProp_def bad_state_def bad_index_def
      new_engine_def)

end
